theory Spec2Isabelle
  imports Main "HOL-Library.Word" "HOL-Library.Multiset"
begin

section \<open>Machine integers and failures\<close>

text \<open>
  \<open>size_t\<close> is an unsigned 64-bit integer and \<open>int\<close> a signed 32-bit one (LP64).
  Arithmetic on \<open>size_t\<close> wraps around; an \<open>int\<close> converted to \<open>size_t\<close> is
  sign-extended (\<open>scast\<close>); a \<open>size_t\<close> converted to \<open>int\<close> keeps its low 32 bits
  (\<open>ucast\<close>).

  A failed \<open>assert\<close> aborts the process; a division by zero, a use of a freed
  object, a dereferenced null pointer and an array index out of bounds are
  undefined behaviour, which the model
  records as an abort as well.
\<close>

type_synonym size_t = "64 word"
type_synonym cint = "32 word"

datatype error = AssertionFailed | DivisionByZero | UseAfterFree | NullDereference | OutOfBounds

section \<open>ParallelFor\<close>

text \<open>
  The two closures \<open>compute\<close> and \<open>on_done\<close> are opaque: what the model keeps of
  them is the trace of their calls, each with the thread it runs on.  A call of
  \<open>compute\<close> is two events, its call and its return, so that other threads can move
  while a block is being computed.
\<close>

datatype thread = Caller | Worker

datatype pf_event =
    ComputeCall size_t size_t
  | ComputeReturn size_t size_t
  | OnDone
  | EnqueueWork size_t size_t

record ParallelForExecutionContext =
  pf_n :: size_t
  pf_block_size :: size_t
  pf_pending_blocks :: size_t

text \<open>Where an activation of \<open>EvalBlocks\<close> stands: in its loop (or just past it),
  inside its call of \<open>compute\<close> (with the arguments of the call), or before its
  \<open>fetch_sub\<close>.\<close>

datatype pc = AtLoop | InCompute size_t size_t | AtDecrement

datatype frame = Frame thread size_t size_t pc

record pf_state =
  ctx :: "ParallelForExecutionContext option"
  frames :: "frame list"
  queue :: "(size_t \<times> size_t) list"
  trace :: "(thread \<times> pf_event) list"
  aborted :: "error option"

definition abort :: "error \<Rightarrow> pf_state" where
  "abort e = \<lparr>ctx = None, frames = [], queue = [], trace = [], aborted = Some e\<rparr>"

definition DivUp :: "size_t \<Rightarrow> size_t \<Rightarrow> error + size_t" where
  "DivUp x y = (if \<not> 0 < y then Inl AssertionFailed else Inr ((x + y - 1) div y))"

definition Allocate :: "size_t \<Rightarrow> size_t \<Rightarrow> error + ParallelForExecutionContext" where
  "Allocate n block_size =
     (case DivUp n block_size of
        Inl e \<Rightarrow> Inl e
      | Inr p \<Rightarrow> Inr \<lparr>pf_n = n, pf_block_size = block_size, pf_pending_blocks = p\<rparr>)"

definition PendingBlocks :: "ParallelForExecutionContext \<Rightarrow> cint" where
  "PendingBlocks c = ucast (pf_pending_blocks c)"

definition kMaxOversharding :: size_t where
  "kMaxOversharding = 4"

text \<open>
  \<open>ParallelFor workers n min_block_size\<close>: \<open>workers\<close> is what
  \<open>GetNumWorkerThreads()\<close> returns (the work queue is not part of the sources).
  The result is the state in which the call leaves the program: finished, in the
  synchronous case, and otherwise with the caller's activation of
  \<open>EvalBlocks(0, PendingBlocks())\<close> about to run.
\<close>

definition ParallelFor :: "cint \<Rightarrow> size_t \<Rightarrow> size_t \<Rightarrow> pf_state" where
  "ParallelFor workers n min_block_size =
     (let d = kMaxOversharding * scast workers in
      if d = 0 then abort DivisionByZero
      else
        let block_size = max min_block_size (n div d) in
        if \<not> 1 \<le> min_block_size then abort AssertionFailed
        else if \<not> 1 \<le> block_size then abort AssertionFailed
        else if n \<le> block_size then
          \<lparr>ctx = None, frames = [], queue = [],
           trace = [(Caller, ComputeCall 0 n), (Caller, ComputeReturn 0 n), (Caller, OnDone)],
           aborted = None\<rparr>
        else
          (case Allocate n block_size of
             Inl e \<Rightarrow> abort e
           | Inr c \<Rightarrow>
               \<lparr>ctx = Some c,
                frames = [Frame Caller 0 (scast (PendingBlocks c)) AtLoop],
                queue = [], trace = [], aborted = None\<rparr>))"

text \<open>
  One step of the \<open>i\<close>-th activation of \<open>EvalBlocks\<close>.  In the loop, a range of
  more than one block is split: the upper half is enqueued and the activation keeps
  the lower half.  A range of one block is computed, and then the pending counter is
  decremented; the activation that reads 1 deletes the context, whose destructor
  calls \<open>on_done\<close>.
\<close>

definition remove_nth :: "nat \<Rightarrow> 'a list \<Rightarrow> 'a list" where
  "remove_nth i xs = take i xs @ drop (Suc i) xs"

definition EvalBlocks_step :: "nat \<Rightarrow> pf_state \<Rightarrow> pf_state option" where
  "EvalBlocks_step i s =
     (if aborted s \<noteq> None \<or> length (frames s) \<le> i then None
      else
        (case frames s ! i of
           Frame t start_block end_block AtLoop \<Rightarrow>
             if 1 < end_block - start_block then
               (case ctx s of
                  None \<Rightarrow> Some (s\<lparr>aborted := Some UseAfterFree\<rparr>)
                | Some c \<Rightarrow>
                    let mid_block = start_block + (end_block - start_block) div 2 in
                    Some (s\<lparr>queue := queue s @ [(mid_block, end_block)],
                            frames := (frames s)[i := Frame t start_block mid_block AtLoop],
                            trace := trace s @ [(t, EnqueueWork mid_block end_block)]\<rparr>))
             else if end_block - start_block \<noteq> 1 then
               Some (s\<lparr>aborted := Some AssertionFailed\<rparr>)
             else
               (case ctx s of
                  None \<Rightarrow> Some (s\<lparr>aborted := Some UseAfterFree\<rparr>)
                | Some c \<Rightarrow>
                    let lo = start_block * pf_block_size c;
                        hi = min (pf_n c) (end_block * pf_block_size c) in
                    Some (s\<lparr>frames := (frames s)[i := Frame t start_block end_block (InCompute lo hi)],
                            trace := trace s @ [(t, ComputeCall lo hi)]\<rparr>))
         | Frame t start_block end_block (InCompute lo hi) \<Rightarrow>
             Some (s\<lparr>frames := (frames s)[i := Frame t start_block end_block AtDecrement],
                     trace := trace s @ [(t, ComputeReturn lo hi)]\<rparr>)
         | Frame t start_block end_block AtDecrement \<Rightarrow>
             (case ctx s of
                None \<Rightarrow> Some (s\<lparr>aborted := Some UseAfterFree\<rparr>)
              | Some c \<Rightarrow>
                  if pf_pending_blocks c = 1 then
                    Some (s\<lparr>ctx := None, frames := remove_nth i (frames s),
                            trace := trace s @ [(t, OnDone)]\<rparr>)
                  else
                    Some (s\<lparr>ctx := Some (c\<lparr>pf_pending_blocks := pf_pending_blocks c - 1\<rparr>),
                            frames := remove_nth i (frames s)\<rparr>))))"

text \<open>
  Modelled from the spec: the work queue, which is not part of the sources
  (\<open>enqueue(task)\<close> submits a closure and returns immediately; submitted tasks run to
  completion).  A worker thread takes any task of the queue, in any order, and runs
  it: the task \<open>j\<close> of the queue becomes an activation of \<open>EvalBlocks\<close>.
\<close>

definition take_task :: "nat \<Rightarrow> pf_state \<Rightarrow> pf_state option" where
  "take_task j s =
     (if aborted s \<noteq> None \<or> length (queue s) \<le> j then None
      else
        (case queue s ! j of
           (mid_block, end_block) \<Rightarrow>
             Some (s\<lparr>queue := remove_nth j (queue s),
                     frames := frames s @ [Frame Worker mid_block end_block AtLoop]\<rparr>)))"

datatype action = Run nat | Take nat

fun step :: "action \<Rightarrow> pf_state \<Rightarrow> pf_state option" where
  "step (Run i) s = EvalBlocks_step i s"
| "step (Take j) s = take_task j s"

text \<open>A schedule is a list of actions; it is refused (\<open>None\<close>) as soon as one of
  its actions is not enabled.\<close>

fun run :: "action list \<Rightarrow> pf_state \<Rightarrow> pf_state option" where
  "run [] s = Some s"
| "run (a # as) s = (case step a s of None \<Rightarrow> None | Some s' \<Rightarrow> run as s')"

definition finished :: "pf_state \<Rightarrow> bool" where
  "finished s = (frames s = [] \<and> queue s = [] \<and> aborted s = None)"

subsection \<open>The transition relation and the invariant\<close>

text \<open>
  The steps of \<open>step\<close>, as a relation on states: the frame (or the task) that moves
  is shown with the frames before and after it.  Every step of \<open>step\<close> is one of
  these (lemma \<open>step_trans\<close>).
\<close>

inductive pf_trans :: "pf_state \<Rightarrow> pf_state \<Rightarrow> bool" where
  tr_split:
    "\<lbrakk>aborted s = None; frames s = pre @ Frame t sb eb AtLoop # post; 1 < eb - sb;
      ctx s = Some c; mid = sb + (eb - sb) div 2\<rbrakk>
     \<Longrightarrow> pf_trans s (s\<lparr>queue := queue s @ [(mid, eb)],
                        frames := pre @ Frame t sb mid AtLoop # post,
                        trace := trace s @ [(t, EnqueueWork mid eb)]\<rparr>)"
| tr_assert:
    "\<lbrakk>aborted s = None; frames s = pre @ Frame t sb eb AtLoop # post; \<not> 1 < eb - sb;
      eb - sb \<noteq> 1\<rbrakk>
     \<Longrightarrow> pf_trans s (s\<lparr>aborted := Some AssertionFailed\<rparr>)"
| tr_call:
    "\<lbrakk>aborted s = None; frames s = pre @ Frame t sb eb AtLoop # post; eb - sb = 1;
      ctx s = Some c; lo = sb * pf_block_size c; hi = min (pf_n c) (eb * pf_block_size c)\<rbrakk>
     \<Longrightarrow> pf_trans s (s\<lparr>frames := pre @ Frame t sb eb (InCompute lo hi) # post,
                        trace := trace s @ [(t, ComputeCall lo hi)]\<rparr>)"
| tr_return:
    "\<lbrakk>aborted s = None; frames s = pre @ Frame t sb eb (InCompute lo hi) # post\<rbrakk>
     \<Longrightarrow> pf_trans s (s\<lparr>frames := pre @ Frame t sb eb AtDecrement # post,
                        trace := trace s @ [(t, ComputeReturn lo hi)]\<rparr>)"
| tr_last:
    "\<lbrakk>aborted s = None; frames s = pre @ Frame t sb eb AtDecrement # post;
      ctx s = Some c; pf_pending_blocks c = 1\<rbrakk>
     \<Longrightarrow> pf_trans s (s\<lparr>ctx := None, frames := pre @ post,
                        trace := trace s @ [(t, OnDone)]\<rparr>)"
| tr_decrement:
    "\<lbrakk>aborted s = None; frames s = pre @ Frame t sb eb AtDecrement # post;
      ctx s = Some c; pf_pending_blocks c \<noteq> 1\<rbrakk>
     \<Longrightarrow> pf_trans s (s\<lparr>ctx := Some (c\<lparr>pf_pending_blocks := pf_pending_blocks c - 1\<rparr>),
                        frames := pre @ post\<rparr>)"
| tr_freed:
    "\<lbrakk>aborted s = None; frames s = pre @ Frame t sb eb p # post; ctx s = None\<rbrakk>
     \<Longrightarrow> pf_trans s (s\<lparr>aborted := Some UseAfterFree\<rparr>)"
| tr_take:
    "\<lbrakk>aborted s = None; queue s = pre @ (m, e) # post\<rbrakk>
     \<Longrightarrow> pf_trans s (s\<lparr>queue := pre @ post, frames := frames s @ [Frame Worker m e AtLoop]\<rparr>)"

text \<open>
  What the invariant counts.  \<open>outstanding\<close> is the number of blocks that have not
  decremented the pending counter yet; \<open>remaining_steps\<close> is the number of steps the
  program has left; \<open>todo\<close> holds the blocks that have not called \<open>compute\<close> yet.
  \<open>calls_of\<close>, \<open>returns_of\<close>, \<open>enqueues_of\<close> and \<open>on_dones\<close> read the trace.
\<close>

fun frame_weight :: "frame \<Rightarrow> nat" where
  "frame_weight (Frame t sb eb AtLoop) = unat eb - unat sb"
| "frame_weight (Frame t sb eb (InCompute lo hi)) = 1"
| "frame_weight (Frame t sb eb AtDecrement) = 1"

fun task_weight :: "size_t \<times> size_t \<Rightarrow> nat" where
  "task_weight (m, e) = unat e - unat m"

definition outstanding :: "pf_state \<Rightarrow> nat" where
  "outstanding s = sum_list (map frame_weight (frames s)) + sum_list (map task_weight (queue s))"

fun frame_steps :: "frame \<Rightarrow> nat" where
  "frame_steps (Frame t sb eb AtLoop) = 5 * (unat eb - unat sb) - 2"
| "frame_steps (Frame t sb eb (InCompute lo hi)) = 2"
| "frame_steps (Frame t sb eb AtDecrement) = 1"

fun task_steps :: "size_t \<times> size_t \<Rightarrow> nat" where
  "task_steps (m, e) = 5 * (unat e - unat m) - 1"

definition remaining_steps :: "pf_state \<Rightarrow> nat" where
  "remaining_steps s = sum_list (map frame_steps (frames s)) + sum_list (map task_steps (queue s))"

fun frame_todo :: "frame \<Rightarrow> nat multiset" where
  "frame_todo (Frame t sb eb AtLoop) = mset [unat sb..<unat eb]"
| "frame_todo (Frame t sb eb (InCompute lo hi)) = {#}"
| "frame_todo (Frame t sb eb AtDecrement) = {#}"

fun task_todo :: "size_t \<times> size_t \<Rightarrow> nat multiset" where
  "task_todo (m, e) = mset [unat m..<unat e]"

definition todo :: "pf_state \<Rightarrow> nat multiset" where
  "todo s = sum_list (map frame_todo (frames s)) + sum_list (map task_todo (queue s))"

fun frame_computing :: "frame \<Rightarrow> (size_t \<times> size_t) multiset" where
  "frame_computing (Frame t sb eb (InCompute lo hi)) = {#(lo, hi)#}"
| "frame_computing (Frame t sb eb AtLoop) = {#}"
| "frame_computing (Frame t sb eb AtDecrement) = {#}"

fun in_loop :: "frame \<Rightarrow> bool" where
  "in_loop (Frame t sb eb p) = (p = AtLoop)"

fun calls_of :: "(thread \<times> pf_event) list \<Rightarrow> (size_t \<times> size_t) list" where
  "calls_of [] = []"
| "calls_of ((t, ComputeCall lo hi) # tr) = (lo, hi) # calls_of tr"
| "calls_of (ev # tr) = calls_of tr"

fun returns_of :: "(thread \<times> pf_event) list \<Rightarrow> (size_t \<times> size_t) list" where
  "returns_of [] = []"
| "returns_of ((t, ComputeReturn lo hi) # tr) = (lo, hi) # returns_of tr"
| "returns_of (ev # tr) = returns_of tr"

fun enqueues_of :: "(thread \<times> pf_event) list \<Rightarrow> (size_t \<times> size_t) list" where
  "enqueues_of [] = []"
| "enqueues_of ((t, EnqueueWork m e) # tr) = (m, e) # enqueues_of tr"
| "enqueues_of (ev # tr) = enqueues_of tr"

fun on_dones :: "(thread \<times> pf_event) list \<Rightarrow> nat" where
  "on_dones [] = 0"
| "on_dones ((t, OnDone) # tr) = Suc (on_dones tr)"
| "on_dones (ev # tr) = on_dones tr"

text \<open>
  The invariant of a run over the blocks \<open>L..<H\<close> of a range of \<open>N\<close> indices in
  blocks of size \<open>B\<close>: every frame and task holds a non-empty range of blocks; the
  pending counter is the number of outstanding blocks, and the context is deleted
  exactly when there is none (then \<open>on_done\<close> is the last event and the only one of
  its kind); the blocks that called \<open>compute\<close> and the blocks still to do are the
  blocks \<open>L..<H\<close>; the calls that have not returned are those of the frames inside
  \<open>compute\<close>; and there is one call or one activation in its loop or one queued task
  for the first activation and for each enqueued task.
\<close>

fun frame_ok :: "nat \<Rightarrow> nat \<Rightarrow> frame \<Rightarrow> bool" where
  "frame_ok L H (Frame t sb eb p) =
     (L \<le> unat sb \<and> unat sb < unat eb \<and> unat eb \<le> H \<and> (p = AtLoop \<or> unat eb = Suc (unat sb)))"

fun task_ok :: "nat \<Rightarrow> nat \<Rightarrow> size_t \<times> size_t \<Rightarrow> bool" where
  "task_ok L H (m, e) = (L \<le> unat m \<and> unat m < unat e \<and> unat e \<le> H)"

definition block_range :: "size_t \<Rightarrow> size_t \<Rightarrow> nat \<Rightarrow> size_t \<times> size_t" where
  "block_range N B b = (of_nat b * B, min N ((of_nat b + 1) * B))"

definition ctx_ok :: "size_t \<Rightarrow> size_t \<Rightarrow> pf_state \<Rightarrow> bool" where
  "ctx_ok N B s =
     (case ctx s of
        Some c \<Rightarrow> pf_n c = N \<and> pf_block_size c = B \<and> unat (pf_pending_blocks c) = outstanding s
           \<and> 0 < outstanding s \<and> on_dones (trace s) = 0
      | None \<Rightarrow> frames s = [] \<and> queue s = [] \<and>
           (\<exists>tr t. trace s = tr @ [(t, OnDone)] \<and> on_dones tr = 0))"

definition pf_inv :: "nat \<Rightarrow> nat \<Rightarrow> size_t \<Rightarrow> size_t \<Rightarrow> pf_state \<Rightarrow> bool" where
  "pf_inv L H N B s =
     (aborted s = None \<and>
      list_all (frame_ok L H) (frames s) \<and> list_all (task_ok L H) (queue s) \<and>
      ctx_ok N B s \<and>
      mset (calls_of (trace s)) + image_mset (block_range N B) (todo s)
        = image_mset (block_range N B) (mset [L..<H]) \<and>
      mset (returns_of (trace s)) + sum_list (map frame_computing (frames s))
        = mset (calls_of (trace s)) \<and>
      length (calls_of (trace s)) + length (filter in_loop (frames s)) + length (queue s)
        = Suc (length (enqueues_of (trace s))))"

text \<open>The index \<open>i\<close> lies in the range of a call \<open>compute(lo, hi)\<close>.\<close>

definition covers :: "nat \<Rightarrow> size_t \<times> size_t \<Rightarrow> bool" where
  "covers i r = (unat (fst r) \<le> i \<and> i < unat (snd r))"

section \<open>RunWhenReady\<close>

text \<open>
  Modelled from the spec: \<open>AsyncValue\<close>, whose class is not part of the sources (only
  the wrapper \<open>AsyncValueRef\<close> is).  An async value is a set-once cell that is
  \<open>Unresolved\<close>, \<open>Concrete\<close> or in \<open>Error\<close> state, with a stack of waiters attached
  while it is unresolved (an indirect value that has not been forwarded counts as
  unresolved).  Payloads play no part in \<open>RunWhenReady\<close> and are left out.
\<close>

datatype av_state = Unresolved | Concrete | Error

text \<open>
  The waiters are closures.  \<open>RunWhenReady\<close> creates two kinds: the one that calls
  the callee, \<open>[callee]() { callee(); }\<close>, and the one that decrements the counter of
  the record \<open>data\<close> and tests it, \<open>[data]() { ... fetch_sub(1) ... }\<close>.  Waiters that
  other clients attached are \<open>OtherWaiter\<close>; running one does not touch what the
  model keeps.
\<close>

datatype 'c waiter = RunCallee 'c | DecrementAndTest nat | OtherWaiter nat

record 'c AsyncValue =
  state_of :: av_state
  waiters :: "'c waiter list"

text \<open>The record \<open>struct CounterAndCallee\<close> that \<open>RunWhenReady\<close> puts on the heap.\<close>

record 'c CounterAndCallee =
  counter :: size_t
  callee :: 'c

text \<open>
  The memory: the async values (an \<open>AsyncValue*\<close> is an index), the allocated join
  records by address, and the log of the calls of callees, each with the thread it
  runs on.  An address or an index with nothing behind it is a dangling pointer.
\<close>

record 'c heap =
  avalues :: "'c AsyncValue list"
  records :: "nat \<rightharpoonup> 'c CounterAndCallee"
  next_record :: nat
  invocations :: "(nat \<times> 'c) list"
  failure :: "error option"

text \<open>\<open>IsAvailable\<close>: \<open>true\<close> if the value is resolved to a concrete value or to an
  error (the comment on \<open>AsyncValueRef::IsAvailable\<close>).\<close>

definition IsAvailable :: "('c, 'z) heap_scheme \<Rightarrow> nat \<Rightarrow> bool" where
  "IsAvailable h v = (state_of (avalues h ! v) \<noteq> Unresolved)"

text \<open>
  What running a waiter on thread \<open>t\<close> does.  The decrementing waiter reads the
  counter and subtracts 1 in one atomic \<open>fetch_sub\<close>; unless it read 1 it returns;
  the one that read 1 calls the callee and deletes the record.
\<close>

definition run_waiter :: "nat \<Rightarrow> 'c waiter \<Rightarrow> ('c, 'z) heap_scheme \<Rightarrow> ('c, 'z) heap_scheme" where
  "run_waiter t w h =
     (case w of
        RunCallee c \<Rightarrow> h\<lparr>invocations := invocations h @ [(t, c)]\<rparr>
      | DecrementAndTest data \<Rightarrow>
          (case records h data of
             None \<Rightarrow> h\<lparr>failure := Some UseAfterFree\<rparr>
           | Some r \<Rightarrow>
               if counter r \<noteq> 1
               then h\<lparr>records := (records h)(data \<mapsto> r\<lparr>counter := counter r - 1\<rparr>)\<rparr>
               else h\<lparr>invocations := invocations h @ [(t, callee r)],
                      records := (records h)(data := None)\<rparr>)
      | OtherWaiter k \<Rightarrow> h)"

text \<open>
  Modelled from the spec: \<open>and_then(waiter)\<close> runs the waiter synchronously on the
  calling thread if the value is resolved, and pushes it onto the waiter stack
  otherwise.  It is one atomic operation on the value.
\<close>

definition AndThen :: "nat \<Rightarrow> nat \<Rightarrow> 'c waiter \<Rightarrow> ('c, 'z) heap_scheme \<Rightarrow> ('c, 'z) heap_scheme" where
  "AndThen t v w h =
     (if failure h \<noteq> None then h
      else if length (avalues h) \<le> v then h\<lparr>failure := Some UseAfterFree\<rparr>
      else if IsAvailable h v then run_waiter t w h
      else h\<lparr>avalues := (avalues h)[v := (avalues h ! v)\<lparr>waiters := w # waiters (avalues h ! v)\<rparr>]\<rparr>)"

text \<open>
  \<open>RunWhenReady\<close> on thread \<open>t\<close>, run without any other thread in between.  The
  first loop collects the values that are not available; then the callee is called
  at once, or attached to the only unavailable value, or a record is allocated with
  the counter set to their number and a decrementing waiter is attached to each.
\<close>

fun scan :: "('c, 'z) heap_scheme \<Rightarrow> nat list \<Rightarrow> nat list \<Rightarrow> error + nat list" where
  "scan h [] unavailable_values = Inr unavailable_values"
| "scan h (i # vals) unavailable_values =
     (if length (avalues h) \<le> i then Inl UseAfterFree
      else scan h vals (if IsAvailable h i then unavailable_values else unavailable_values @ [i]))"

definition RunWhenReady :: "nat \<Rightarrow> nat list \<Rightarrow> 'c \<Rightarrow> ('c, 'z) heap_scheme \<Rightarrow> ('c, 'z) heap_scheme" where
  "RunWhenReady t vals callee' h =
     (case scan h vals [] of
        Inl e \<Rightarrow> h\<lparr>failure := Some e\<rparr>
      | Inr unavailable_values \<Rightarrow>
          if unavailable_values = [] then h\<lparr>invocations := invocations h @ [(t, callee')]\<rparr>
          else if length unavailable_values = 1
          then AndThen t (unavailable_values ! 0) (RunCallee callee') h
          else
            let data = next_record h;
                h1 = h\<lparr>records := (records h)(data \<mapsto>
                          \<lparr>counter = of_nat (length unavailable_values), callee = callee'\<rparr>),
                       next_record := Suc data\<rparr>
            in fold (\<lambda>val. AndThen t val (DecrementAndTest data)) unavailable_values h1)"

subsection \<open>RunWhenReady among other threads\<close>

text \<open>
  The same code, one atomic operation at a time, so that other threads can resolve
  values in between.  The activation of \<open>RunWhenReady\<close> is in its first loop
  (\<open>Scanning\<close>: the thread, the values still to test, \<open>unavailable_values\<close> so far and
  the callee), in its second loop (\<open>Attaching\<close>: the thread, \<open>data\<close> and the values
  still to attach to), or has returned.  A thread that resolves a value runs the
  waiters it detached, one at a time (\<open>flushes\<close>: the thread and the waiters it still
  has to run).
\<close>

datatype 'c activation =
    Scanning nat "nat list" "nat list" 'c
  | Attaching nat nat "nat list"
  | Returned

record 'c machine = "'c heap" +
  call :: "'c activation"
  flushes :: "(nat \<times> 'c waiter list) list"

definition call_step :: "'c machine \<Rightarrow> 'c machine option" where
  "call_step s =
     (if failure s \<noteq> None then None
      else
        (case call s of
           Scanning t [] unavailable_values callee' \<Rightarrow>
             if unavailable_values = [] then
               Some (s\<lparr>invocations := invocations s @ [(t, callee')], call := Returned\<rparr>)
             else if length unavailable_values = 1 then
               Some ((AndThen t (unavailable_values ! 0) (RunCallee callee') s)\<lparr>call := Returned\<rparr>)
             else
               let data = next_record s in
               Some (s\<lparr>records := (records s)(data \<mapsto>
                             \<lparr>counter = of_nat (length unavailable_values), callee = callee'\<rparr>),
                       next_record := Suc data,
                       call := Attaching t data unavailable_values\<rparr>)
         | Scanning t (i # vals) unavailable_values callee' \<Rightarrow>
             if length (avalues s) \<le> i then Some (s\<lparr>failure := Some UseAfterFree\<rparr>)
             else
               Some (s\<lparr>call := Scanning t vals
                        (if IsAvailable s i then unavailable_values else unavailable_values @ [i])
                        callee'\<rparr>)
         | Attaching t data [] \<Rightarrow> Some (s\<lparr>call := Returned\<rparr>)
         | Attaching t data (val # vals) \<Rightarrow>
             Some ((AndThen t val (DecrementAndTest data) s)
                     \<lparr>call := (if vals = [] then Returned else Attaching t data vals)\<rparr>)
         | Returned \<Rightarrow> None))"

text \<open>
  Modelled from the spec: a thread \<open>t\<close> resolves the value \<open>v\<close> to a concrete value or
  to an error.  The transition happens once, on an unresolved value; the winner
  detaches the waiter stack and then runs each waiter in LIFO order.
\<close>

definition SetState :: "nat \<Rightarrow> nat \<Rightarrow> av_state \<Rightarrow> 'c machine \<Rightarrow> 'c machine option" where
  "SetState t v st s =
     (if failure s \<noteq> None \<or> length (avalues s) \<le> v \<or> st = Unresolved \<or> IsAvailable s v
      then None
      else Some (s\<lparr>avalues := (avalues s)[v := \<lparr>state_of = st, waiters = []\<rparr>],
                   flushes := flushes s @ [(t, waiters (avalues s ! v))]\<rparr>))"

definition flush_step :: "nat \<Rightarrow> 'c machine \<Rightarrow> 'c machine option" where
  "flush_step i s =
     (if failure s \<noteq> None \<or> length (flushes s) \<le> i then None
      else
        (case flushes s ! i of
           (t, []) \<Rightarrow> Some (s\<lparr>flushes := remove_nth i (flushes s)\<rparr>)
         | (t, w # ws) \<Rightarrow> Some ((run_waiter t w s)\<lparr>flushes := (flushes s)[i := (t, ws)]\<rparr>)))"

text \<open>A schedule is a list of actions: a step of the activation, a step of a flush,
  or a thread resolving a value.  It is refused as soon as an action is not enabled.\<close>

datatype rwr_action = CallStep | FlushStep nat | Resolve nat nat av_state

fun rwr_step :: "rwr_action \<Rightarrow> 'c machine \<Rightarrow> 'c machine option" where
  "rwr_step CallStep s = call_step s"
| "rwr_step (FlushStep i) s = flush_step i s"
| "rwr_step (Resolve t v st) s = SetState t v st s"

fun rwr_run :: "rwr_action list \<Rightarrow> 'c machine \<Rightarrow> 'c machine option" where
  "rwr_run [] s = Some s"
| "rwr_run (a # as) s = (case rwr_step a s of None \<Rightarrow> None | Some s' \<Rightarrow> rwr_run as s')"

definition quiescent :: "'c machine \<Rightarrow> bool" where
  "quiescent s = (call s = Returned \<and> flushes s = [] \<and> failure s = None)"

text \<open>The state in which thread \<open>t\<close> enters \<open>RunWhenReady(vals, callee)\<close> on the
  values \<open>vs\<close>.\<close>

definition start :: "nat \<Rightarrow> nat list \<Rightarrow> 'c \<Rightarrow> 'c AsyncValue list \<Rightarrow> 'c machine" where
  "start t vals callee' vs =
     \<lparr>avalues = vs, records = Map.empty, next_record = 0, invocations = [], failure = None,
      call = Scanning t vals [] callee', flushes = []\<rparr>"

subsection \<open>The invariant of RunWhenReady\<close>

text \<open>
  \<open>all_waiters\<close> holds every waiter that is attached to a value or that a flush has
  still to run.  \<open>heap_ok\<close>: the inputs are values of the heap, a resolved value has
  no waiter, and a value that is not an input has only waiters of other clients.
  The three invariants follow the activation: while it scans, nothing of it is
  attached; while it attaches, the counter of the record is the number of values
  still to attach to plus the number of decrementing waiters; once it has returned,
  either the callee has been called or its waiter is pending (one of the two, and no
  record), or the record lives and its counter is the number of decrementing waiters.
  An input is available, or still to be attached to, or holds a waiter.
\<close>

fun is_other :: "'c waiter \<Rightarrow> bool" where
  "is_other (OtherWaiter k) = True"
| "is_other w = False"

definition all_waiters :: "'c machine \<Rightarrow> 'c waiter multiset" where
  "all_waiters s =
     sum_list (map (\<lambda>a. mset (waiters a)) (avalues s)) + sum_list (map (\<lambda>f. mset (snd f)) (flushes s))"

definition pool :: "'c AsyncValue list \<Rightarrow> (nat \<times> 'c waiter list) list \<Rightarrow> 'c waiter multiset" where
  "pool vs fs = sum_list (map (\<lambda>a. mset (waiters a)) vs) + sum_list (map (\<lambda>f. mset (snd f)) fs)"

definition heap_ok :: "nat list \<Rightarrow> 'c machine \<Rightarrow> bool" where
  "heap_ok vals s =
     (failure s = None \<and> length vals < 2 ^ 64 \<and>
      (\<forall>v\<in>set vals. v < length (avalues s)) \<and>
      (\<forall>a\<in>set (avalues s). state_of a \<noteq> Unresolved \<longrightarrow> waiters a = []) \<and>
      (\<forall>v<length (avalues s). v \<notin> set vals \<longrightarrow> (\<forall>w\<in>set (waiters (avalues s ! v)). is_other w)))"

definition scanning_inv :: "nat list \<Rightarrow> 'c \<Rightarrow> nat \<Rightarrow> nat list \<Rightarrow> nat list \<Rightarrow> 'c machine \<Rightarrow> bool" where
  "scanning_inv vals c d rest acc s =
     (invocations s = [] \<and> records s = Map.empty \<and> next_record s = d \<and>
      (\<forall>w\<in>#all_waiters s. is_other w) \<and>
      (\<exists>done. vals = done @ rest \<and> length acc \<le> length done \<and>
         (\<forall>v\<in>set done. v \<in> set acc \<or> IsAvailable s v)) \<and>
      set acc \<subseteq> set vals)"

definition attaching_inv :: "nat list \<Rightarrow> 'c \<Rightarrow> nat \<Rightarrow> nat list \<Rightarrow> 'c machine \<Rightarrow> bool" where
  "attaching_inv vals c d rest s =
     (invocations s = [] \<and>
      (\<forall>w\<in>#all_waiters s. is_other w \<or> w = DecrementAndTest d) \<and>
      (\<exists>r. records s = [d \<mapsto> r] \<and> callee r = c \<and>
         unat (counter r) = length rest + count (all_waiters s) (DecrementAndTest d)) \<and>
      set rest \<subseteq> set vals \<and>
      (\<forall>v\<in>set vals. IsAvailable s v \<or> v \<in> set rest
          \<or> DecrementAndTest d \<in> set (waiters (avalues s ! v))))"

definition returned_inv :: "nat list \<Rightarrow> 'c \<Rightarrow> nat \<Rightarrow> 'c machine \<Rightarrow> bool" where
  "returned_inv vals c d s =
     ((\<forall>w\<in>#all_waiters s. is_other w \<or> w = RunCallee c \<or> w = DecrementAndTest d) \<and>
      (\<forall>v\<in>set vals. IsAvailable s v \<or> RunCallee c \<in> set (waiters (avalues s ! v))
          \<or> DecrementAndTest d \<in> set (waiters (avalues s ! v))) \<and>
      ((records s = Map.empty \<and> count (all_waiters s) (DecrementAndTest d) = 0 \<and>
        length (invocations s) + count (all_waiters s) (RunCallee c) = 1 \<and>
        (\<forall>e\<in>set (invocations s). snd e = c))
       \<or> (\<exists>r. records s = [d \<mapsto> r] \<and> callee r = c \<and> invocations s = [] \<and>
             count (all_waiters s) (RunCallee c) = 0 \<and>
             unat (counter r) = count (all_waiters s) (DecrementAndTest d) \<and>
             0 < count (all_waiters s) (DecrementAndTest d))))"

definition rwr_inv :: "nat list \<Rightarrow> 'c \<Rightarrow> nat \<Rightarrow> 'c machine \<Rightarrow> bool" where
  "rwr_inv vals c d s =
     (heap_ok vals s \<and>
      (case call s of
         Scanning t rest acc c' \<Rightarrow> c' = c \<and> scanning_inv vals c d rest acc s
       | Attaching t d' rest \<Rightarrow> d' = d \<and> rest \<noteq> [] \<and> attaching_inv vals c d rest s
       | Returned \<Rightarrow> returned_inv vals c d s))"

definition push :: "nat \<Rightarrow> 'c waiter \<Rightarrow> 'c machine \<Rightarrow> 'c machine" where
  "push v w s = s\<lparr>avalues := (avalues s)[v := (avalues s ! v)\<lparr>waiters := w # waiters (avalues s ! v)\<rparr>]\<rparr>"

text \<open>
  A bound on the steps that are left.  Each value still to scan counts 3, each
  value in \<open>unavailable_values\<close> counts 2, each value still to attach to counts 2;
  a flush counts the waiters it has still to run and 1; an unresolved value counts
  2 and its waiters.  Every step of the machine makes \<open>rwr_steps\<close> smaller, and
  every step of the activation makes \<open>call_weight\<close> smaller.
\<close>

fun call_weight :: "'c activation \<Rightarrow> nat" where
  "call_weight (Scanning t vals unavailable_values c)
     = 3 * length vals + 2 * length unavailable_values + 3"
| "call_weight (Attaching t data vals) = 2 * length vals + 1"
| "call_weight Returned = 0"

definition value_weight :: "'c AsyncValue \<Rightarrow> nat" where
  "value_weight a = (if state_of a = Unresolved then 2 + length (waiters a) else 0)"

definition rwr_steps :: "'c machine \<Rightarrow> nat" where
  "rwr_steps s = call_weight (call s)
                 + sum_list (map (\<lambda>f. Suc (length (snd f))) (flushes s))
                 + sum_list (map value_weight (avalues s))"

section \<open>The other operations of HostContext\<close>

subsection \<open>EnqueueBlockingWork\<close>

text \<open>
  The work queue is an interface of which the sources hold only the calls.
  \<open>AddBlockingTask\<close> is therefore a parameter \<open>add\<close>: given the task, the flag
  \<open>allow_queuing\<close> and the queue, it returns the task again when it rejects it
  (\<open>Some task\<close>, as \<open>Optional<TaskFunction>\<close>) and nothing when it takes it.

  \<open>EnqueueBlockingWork\<close> takes the closure by value and returns a \<open>bool\<close> only.
  The result of the model shows the three things the call leaves behind: the
  \<open>bool\<close>, the closure the caller gets back (none: the return type has no room for
  it), and the closures destroyed when the call returns, namely the local \<open>task\<close>
  when it holds the rejected closure.
\<close>

record ('task, 'q) enqueue_result =
  accepted :: bool
  returned_to_caller :: "'task option"
  destroyed :: "'task list"
  work_queue :: 'q

definition EnqueueBlockingWork ::
  "('task \<Rightarrow> bool \<Rightarrow> 'q \<Rightarrow> 'task option \<times> 'q) \<Rightarrow> 'task \<Rightarrow> 'q \<Rightarrow> ('task, 'q) enqueue_result" where
  "EnqueueBlockingWork add work wq =
     (case add work True wq of
        (task, wq') \<Rightarrow>
          \<lparr>accepted = (task = None),
           returned_to_caller = None,
           destroyed = (case task of None \<Rightarrow> [] | Some t \<Rightarrow> [t]),
           work_queue = wq'\<rparr>)"

text \<open>
  Modelled from the spec: a blocking work queue that is full rejects the task
  (\<open>try_enqueue_blocking\<close> returns \<open>Some(task)\<close>, ownership returned, if rejected).
  The queue is the list of the tasks it holds, with a capacity.
\<close>

definition AddBlockingTask_bounded ::
  "nat \<Rightarrow> 'task \<Rightarrow> bool \<Rightarrow> 'task list \<Rightarrow> 'task option \<times> 'task list" where
  "AddBlockingTask_bounded capacity task allow_queuing q =
     (if allow_queuing \<and> length q < capacity then (None, q @ [task]) else (Some task, q))"

subsection \<open>Construction and destruction\<close>

text \<open>
  The two globals of the file: the \<open>std::atomic<int>\<close> counter
  \<open>next_host_context_index\<close> and the table \<open>all_host_contexts_\<close>.  The size of the
  table, \<open>HostContextPtr::kDummyIndex\<close>, is declared outside the sources and is a
  parameter here.  The constructor reads the counter and adds 1 in one atomic
  \<open>fetch_add\<close>, checks the index it read against \<open>kDummyIndex\<close> (a signed
  comparison of two \<open>int\<close>s), and stores \<open>this\<close> in the table; the destructor stores
  \<open>nullptr\<close> at the index of the context.  A store outside the table is an error of
  its own.
\<close>

record 'h globals =
  next_host_context_index :: cint
  all_host_contexts :: "'h option list"

definition HostContext_construct :: "cint \<Rightarrow> 'h \<Rightarrow> 'h globals \<Rightarrow> error + (cint \<times> 'h globals)" where
  "HostContext_construct kDummyIndex this g =
     (let instance_index = next_host_context_index g;
          g1 = g\<lparr>next_host_context_index := instance_index + 1\<rparr>
      in
        if \<not> instance_index <s kDummyIndex then Inl AssertionFailed
        else if instance_index <s 0 \<or> length (all_host_contexts g1) \<le> nat (sint instance_index)
        then Inl OutOfBounds
        else Inr (instance_index,
                  g1\<lparr>all_host_contexts :=
                       (all_host_contexts g1)[nat (sint instance_index) := Some this]\<rparr>))"

definition HostContext_destroy :: "cint \<Rightarrow> 'h globals \<Rightarrow> error + 'h globals" where
  "HostContext_destroy instance_index g =
     (if instance_index <s 0 \<or> length (all_host_contexts g) \<le> nat (sint instance_index)
      then Inl OutOfBounds
      else Inr (g\<lparr>all_host_contexts := (all_host_contexts g)[nat (sint instance_index) := None]\<rparr>))"

definition initial_globals :: "cint \<Rightarrow> 'h globals" where
  "initial_globals kDummyIndex =
     \<lparr>next_host_context_index = 0,
      all_host_contexts = replicate (nat (sint kDummyIndex)) None\<rparr>"

text \<open>
  A program constructs contexts and destroys them (a destructor is given the index
  of its context).  \<open>run_lifecycle\<close> runs such a sequence and collects the indices
  that the constructions got; it stops at the first error.
\<close>

datatype 'h lifecycle = Construct 'h | Destroy cint

fun run_lifecycle ::
  "cint \<Rightarrow> 'h lifecycle list \<Rightarrow> cint list \<times> 'h globals \<Rightarrow> error + (cint list \<times> 'h globals)" where
  "run_lifecycle kDummyIndex [] (idxs, g) = Inr (idxs, g)"
| "run_lifecycle kDummyIndex (Construct this # ops) (idxs, g) =
     (case HostContext_construct kDummyIndex this g of
        Inl e \<Rightarrow> Inl e
      | Inr (i, g') \<Rightarrow> run_lifecycle kDummyIndex ops (idxs @ [i], g'))"
| "run_lifecycle kDummyIndex (Destroy i # ops) (idxs, g) =
     (case HostContext_destroy i g of
        Inl e \<Rightarrow> Inl e
      | Inr g' \<Rightarrow> run_lifecycle kDummyIndex ops (idxs, g'))"

subsection \<open>CancelExecution and Restart\<close>

text \<open>
  The cancel slot \<open>cancel_value_\<close> is an atomic pointer to an error value.  Error
  values live in a heap, by address.  Modelled from the spec: an error value carries
  a reference count; \<open>DropRef\<close> subtracts 1 and destroys the value when the count
  reaches 0, and on a destroyed value it is a use after free.

  Each atomic operation on the slot is logged with the memory orders it was called
  with.  The model interleaves atomic operations in one global order; what the
  memory orders allow beyond that is not modelled, they are recorded only.
\<close>

datatype memory_order =
    memory_order_relaxed | memory_order_consume | memory_order_acquire
  | memory_order_release | memory_order_acq_rel | memory_order_seq_cst

record ErrorAsyncValue =
  message :: string
  refcount :: nat

datatype atomic_op =
    CompareExchangeStrong "nat option" "nat option" memory_order memory_order bool
  | Exchange "nat option" memory_order "nat option"

record cancel_state =
  cancel_value :: "nat option"
  error_values :: "nat \<rightharpoonup> ErrorAsyncValue"
  next_error_value :: nat
  atomic_ops :: "atomic_op list"
  fault :: "error option"

text \<open>
  \<open>MakeErrorAsyncValueRef(msg).release()\<close>: a new error value with one reference,
  owned by the caller.  Then the two atomic operations on the slot, and the two
  functions as the source composes them.
\<close>

definition MakeErrorAsyncValueRef ::
  "string \<Rightarrow> 'z cancel_state_scheme \<Rightarrow> nat \<times> 'z cancel_state_scheme" where
  "MakeErrorAsyncValueRef msg h =
     (next_error_value h,
      h\<lparr>error_values := (error_values h)(next_error_value h \<mapsto> \<lparr>message = msg, refcount = 1\<rparr>),
        next_error_value := Suc (next_error_value h)\<rparr>)"

definition DropRef :: "nat \<Rightarrow> 'z cancel_state_scheme \<Rightarrow> 'z cancel_state_scheme" where
  "DropRef a h =
     (case error_values h a of
        None \<Rightarrow> h\<lparr>fault := Some UseAfterFree\<rparr>
      | Some v \<Rightarrow>
          if refcount v = 1 then h\<lparr>error_values := (error_values h)(a := None)\<rparr>
          else h\<lparr>error_values := (error_values h)(a \<mapsto> v\<lparr>refcount := refcount v - 1\<rparr>)\<rparr>)"

definition compare_exchange_strong ::
  "nat option \<Rightarrow> nat option \<Rightarrow> memory_order \<Rightarrow> memory_order \<Rightarrow> 'z cancel_state_scheme
     \<Rightarrow> bool \<times> 'z cancel_state_scheme" where
  "compare_exchange_strong expected desired success_order failure_order h =
     (if cancel_value h = expected
      then (True, h\<lparr>cancel_value := desired,
                    atomic_ops := atomic_ops h
                       @ [CompareExchangeStrong expected desired success_order failure_order True]\<rparr>)
      else (False, h\<lparr>atomic_ops := atomic_ops h
                       @ [CompareExchangeStrong expected desired success_order failure_order False]\<rparr>))"

definition exchange ::
  "nat option \<Rightarrow> memory_order \<Rightarrow> 'z cancel_state_scheme \<Rightarrow> nat option \<times> 'z cancel_state_scheme" where
  "exchange desired mo h =
     (cancel_value h,
      h\<lparr>cancel_value := desired,
        atomic_ops := atomic_ops h @ [Exchange desired mo (cancel_value h)]\<rparr>)"

definition CancelExecution :: "string \<Rightarrow> 'z cancel_state_scheme \<Rightarrow> 'z cancel_state_scheme" where
  "CancelExecution msg h =
     (let (error_value, h1) = MakeErrorAsyncValueRef msg h;
          expected_value = None;
          (ok, h2) = compare_exchange_strong expected_value (Some error_value)
                       memory_order_release memory_order_relaxed h1
      in if \<not> ok then DropRef error_value h2 else h2)"

definition Restart :: "'z cancel_state_scheme \<Rightarrow> 'z cancel_state_scheme" where
  "Restart h =
     (let (value_opt, h1) = exchange None memory_order_acq_rel h
      in case value_opt of Some v \<Rightarrow> DropRef v h1 | None \<Rightarrow> h1)"

text \<open>
  Calls on several threads, one atomic operation at a time.  A call that has
  started and not returned is an activity: \<open>CancelExecution\<close> before its
  \<open>compare_exchange_strong\<close> or, when that failed, before its \<open>DropRef\<close>; \<open>Restart\<close>
  after its \<open>exchange\<close>, before its \<open>DropRef\<close>.  \<open>Resume i\<close> runs the next operation
  of activity \<open>i\<close>.
\<close>

datatype activity = Cancel_AtCompareExchange nat | Cancel_AtDropRef nat | Restart_AtDropRef nat

record cancel_machine = cancel_state +
  activities :: "activity list"

datatype cancel_action = CallCancelExecution string | CallRestart | Resume nat

definition cancel_step :: "cancel_action \<Rightarrow> cancel_machine \<Rightarrow> cancel_machine option" where
  "cancel_step a s =
     (case a of
        CallCancelExecution msg \<Rightarrow>
          (let (error_value, s1) = MakeErrorAsyncValueRef msg s
           in Some (s1\<lparr>activities := activities s1 @ [Cancel_AtCompareExchange error_value]\<rparr>))
      | CallRestart \<Rightarrow>
          (let (value_opt, s1) = exchange None memory_order_acq_rel s
           in case value_opt of
                Some v \<Rightarrow> Some (s1\<lparr>activities := activities s1 @ [Restart_AtDropRef v]\<rparr>)
              | None \<Rightarrow> Some s1)
      | Resume i \<Rightarrow>
          if length (activities s) \<le> i then None
          else
            (case activities s ! i of
               Cancel_AtCompareExchange error_value \<Rightarrow>
                 (let (ok, s1) = compare_exchange_strong None (Some error_value)
                                   memory_order_release memory_order_relaxed s
                  in if \<not> ok
                     then Some (s1\<lparr>activities := (activities s1)[i := Cancel_AtDropRef error_value]\<rparr>)
                     else Some (s1\<lparr>activities := remove_nth i (activities s1)\<rparr>))
             | Cancel_AtDropRef error_value \<Rightarrow>
                 Some ((DropRef error_value s)\<lparr>activities := remove_nth i (activities s)\<rparr>)
             | Restart_AtDropRef v \<Rightarrow>
                 Some ((DropRef v s)\<lparr>activities := remove_nth i (activities s)\<rparr>)))"

fun cancel_run :: "cancel_action list \<Rightarrow> cancel_machine \<Rightarrow> cancel_machine option" where
  "cancel_run [] s = Some s"
| "cancel_run (a # as) s = (case cancel_step a s of None \<Rightarrow> None | Some s' \<Rightarrow> cancel_run as s')"

definition new_cancel_machine :: cancel_machine where
  "new_cancel_machine =
     \<lparr>cancel_value = None, error_values = Map.empty, next_error_value = 0, atomic_ops = [],
      fault = None, activities = []\<rparr>"

subsection \<open>GetOrCreateSharedContext\<close>







subsection \<open>Invariants of the other operations\<close>

text \<open>
  After any sequence of constructions and destructions, the indices handed out
  are \<open>0, 1, 2, \<dots>\<close> in this order, the counter is their number, and the table has
  its size.
\<close>

definition globals_inv :: "cint \<Rightarrow> cint list \<Rightarrow> 'h globals \<Rightarrow> bool" where
  "globals_inv kDummyIndex idxs g =
     (idxs = map of_nat [0..<length idxs]
      \<and> next_host_context_index g = of_nat (length idxs)
      \<and> length idxs \<le> nat (sint kDummyIndex)
      \<and> length (all_host_contexts g) = nat (sint kDummyIndex))"

text \<open>
  The error values that somebody owns: the one in the slot and the one each
  activity holds.  \<open>installs_since_restart\<close> counts the successful compare-exchanges
  after the last exchange in the log; \<open>as_in_source\<close> says that a logged operation
  has the arguments of the source: \<open>nullptr\<close> expected and release, relaxed for the
  compare-exchange, \<open>nullptr\<close> stored and acq_rel for the exchange.  The invariant:
  no fault; the owned values are distinct and are exactly the live ones, each with
  one reference; the slot is occupied exactly if there was one install since the
  last restart.
\<close>

fun error_value_of :: "activity \<Rightarrow> nat" where
  "error_value_of (Cancel_AtCompareExchange a) = a"
| "error_value_of (Cancel_AtDropRef a) = a"
| "error_value_of (Restart_AtDropRef a) = a"

definition owned :: "cancel_machine \<Rightarrow> nat list" where
  "owned s = (case cancel_value s of None \<Rightarrow> [] | Some v \<Rightarrow> [v]) @ map error_value_of (activities s)"

definition installs_since_restart :: "atomic_op list \<Rightarrow> nat" where
  "installs_since_restart ops =
     foldl (\<lambda>n op. case op of
                      CompareExchangeStrong expected desired success_order failure_order ok \<Rightarrow>
                        if ok then Suc n else n
                    | Exchange desired mo previous \<Rightarrow> 0) 0 ops"

fun as_in_source :: "atomic_op \<Rightarrow> bool" where
  "as_in_source (CompareExchangeStrong expected desired success_order failure_order ok) =
     (expected = None \<and> desired \<noteq> None
      \<and> success_order = memory_order_release \<and> failure_order = memory_order_relaxed)"
| "as_in_source (Exchange desired mo previous) =
     (desired = None \<and> mo = memory_order_acq_rel)"

definition cancel_inv :: "cancel_machine \<Rightarrow> bool" where
  "cancel_inv s =
     (fault s = None
      \<and> distinct (owned s)
      \<and> (\<forall>a. (a \<in> set (owned s)) = (error_values s a \<noteq> None))
      \<and> (\<forall>a v. error_values s a = Some v \<longrightarrow> refcount v = 1 \<and> a < next_error_value s)
      \<and> installs_since_restart (atomic_ops s) = (if cancel_value s = None then 0 else 1)
      \<and> (\<forall>op \<in> set (atomic_ops s). as_in_source op))"





section \<open>ParallelFor: lemmas\<close>

lemma nth_split3:
  assumes "i < length xs"
  shows "\<exists>pre post. xs = pre @ xs ! i # post \<and> (\<forall>y. xs[i := y] = pre @ y # post)
          \<and> remove_nth i xs = pre @ post"
proof (intro exI conjI allI)
  show "xs = take i xs @ xs ! i # drop (Suc i) xs"
    using assms by (simp add: id_take_nth_drop [symmetric])
  show "xs[i := y] = take i xs @ y # drop (Suc i) xs" for y
    using assms by (simp add: upd_conv_take_nth_drop)
  show "remove_nth i xs = take i xs @ drop (Suc i) xs"
    by (simp add: remove_nth_def)
qed

lemma EvalBlocks_step_trans:
  assumes "EvalBlocks_step i s = Some s'"
  shows "pf_trans s s'"
proof -
  from assms have ab: "aborted s = None" and i: "i < length (frames s)"
    by (auto simp: EvalBlocks_step_def split: if_splits)
  obtain t sb eb p where f: "frames s ! i = Frame t sb eb p"
    by (cases "frames s ! i") auto
  from nth_split3 [OF i] f obtain pre post where
    fr: "frames s = pre @ Frame t sb eb p # post"
    and up: "\<And>y. (frames s)[i := y] = pre @ y # post"
    and rm: "remove_nth i (frames s) = pre @ post"
    by metis
  show ?thesis
  proof (cases p)
    case AtLoop
    with assms ab i f fr up show ?thesis
      by (auto simp: EvalBlocks_step_def Let_def split: if_splits option.splits
            intro: pf_trans.intros)
  next
    case (InCompute lo hi)
    with assms ab i f fr up show ?thesis
      by (auto simp: EvalBlocks_step_def intro: pf_trans.intros)
  next
    case AtDecrement
    with assms ab i f fr rm show ?thesis
      by (auto simp: EvalBlocks_step_def split: if_splits option.splits
            intro: pf_trans.intros)
  qed
qed

lemma take_task_trans:
  assumes "take_task j s = Some s'"
  shows "pf_trans s s'"
proof -
  from assms have ab: "aborted s = None" and j: "j < length (queue s)"
    by (auto simp: take_task_def split: if_splits)
  obtain m e where q: "queue s ! j = (m, e)"
    by (cases "queue s ! j") auto
  from nth_split3 [OF j] q obtain pre post where
    "queue s = pre @ (m, e) # post" "remove_nth j (queue s) = pre @ post"
    by metis
  with assms ab j q show ?thesis
    by (auto simp: take_task_def intro: pf_trans.intros)
qed

lemma step_trans: "step a s = Some s' \<Longrightarrow> pf_trans s s'"
  by (cases a) (auto intro: EvalBlocks_step_trans take_task_trans)

lemma calls_of_append: "calls_of (xs @ ys) = calls_of xs @ calls_of ys"
  by (induction xs rule: calls_of.induct) auto

lemma returns_of_append: "returns_of (xs @ ys) = returns_of xs @ returns_of ys"
  by (induction xs rule: returns_of.induct) auto

lemma enqueues_of_append: "enqueues_of (xs @ ys) = enqueues_of xs @ enqueues_of ys"
  by (induction xs rule: enqueues_of.induct) auto

lemma on_dones_append: "on_dones (xs @ ys) = on_dones xs + on_dones ys"
  by (induction xs rule: on_dones.induct) auto

lemma unat_mid_block:
  fixes sb eb :: size_t
  assumes "unat sb < unat eb"
  shows "unat (sb + (eb - sb) div 2) = unat sb + (unat eb - unat sb) div 2"
proof -
  have le: "sb \<le> eb" using assms by (simp add: word_le_nat_alt)
  have d: "unat (eb - sb) = unat eb - unat sb" using le by (rule unat_sub)
  have h: "unat ((eb - sb) div 2) = (unat eb - unat sb) div 2"
    by (simp add: unat_div d)
  have "unat sb + unat ((eb - sb) div 2) < 2 ^ LENGTH(64)"
    using h assms unsigned_less [of eb, where 'a = nat] by simp
  then show ?thesis using h by (simp add: unat_add_lem [THEN iffD1])
qed

lemma one_less_diff:
  fixes sb eb :: size_t
  assumes "unat sb < unat eb"
  shows "(1 < eb - sb) = (2 \<le> unat eb - unat sb)"
    and "(eb - sb = 1) = (unat eb = Suc (unat sb))"
proof -
  have le: "sb \<le> eb" using assms by (simp add: word_le_nat_alt)
  have d: "unat (eb - sb) = unat eb - unat sb" using le by (rule unat_sub)
  show "(1 < eb - sb) = (2 \<le> unat eb - unat sb)"
    using d by (auto simp: word_less_nat_alt)
  have "(eb - sb = 1) = (unat (eb - sb) = unat (1 :: size_t))"
    by (simp only: word_unat_eq_iff)
  then show "(eb - sb = 1) = (unat eb = Suc (unat sb))"
    using d assms by auto
qed

lemma mset_upt_split:
  assumes "a \<le> m" "m \<le> b"
  shows "mset [a..<m] + mset [m..<b] = mset [a..<b]"
proof -
  have "[a..<b] = [a..<m] @ [m..<b]"
    using assms upt_add_eq_append [of a m "b - m"] by simp
  then show ?thesis by simp
qed

lemma pf_inv_split:
  assumes inv: "pf_inv L H N B s"
    and fr: "frames s = pre @ Frame t sb eb AtLoop # post"
    and gt: "1 < eb - sb"
    and c: "ctx s = Some c"
    and mid: "mid = sb + (eb - sb) div 2"
    and s': "s' = s\<lparr>queue := queue s @ [(mid, eb)],
            frames := pre @ Frame t sb mid AtLoop # post,
            trace := trace s @ [(t, EnqueueWork mid eb)]\<rparr>"
  shows "pf_inv L H N B s' \<and> Suc (remaining_steps s') = remaining_steps s"
proof -
  let ?s' = "s\<lparr>queue := queue s @ [(mid, eb)],
            frames := pre @ Frame t sb mid AtLoop # post,
            trace := trace s @ [(t, EnqueueWork mid eb)]\<rparr>"
  from inv fr have ok: "L \<le> unat sb" "unat sb < unat eb" "unat eb \<le> H"
    by (auto simp: pf_inv_def)
  have m: "unat mid = unat sb + (unat eb - unat sb) div 2"
    unfolding mid using ok(2) by (rule unat_mid_block)
  have k: "2 \<le> unat eb - unat sb"
    using gt one_less_diff(1) [OF ok(2)] by simp
  have lt: "unat sb < unat mid" "unat mid < unat eb"
    using m k by auto
  have td: "mset [unat sb..<unat mid] + mset [unat mid..<unat eb] = mset [unat sb..<unat eb]"
    using lt by (intro mset_upt_split) auto
  have 1: "todo ?s' = todo s"
    using td by (simp add: todo_def fr del: mset_upt)
  have 2: "outstanding ?s' = outstanding s"
    using lt by (simp add: outstanding_def fr)
  have 3: "Suc (remaining_steps ?s') = remaining_steps s"
    using lt by (simp add: remaining_steps_def fr)
  have "pf_inv L H N B ?s'"
    using inv ok lt
    by (simp add: pf_inv_def ctx_ok_def 1 2 fr c
        calls_of_append returns_of_append enqueues_of_append on_dones_append)
  with 3 show ?thesis unfolding s' by simp
qed

lemma frame_weight_pos: "frame_ok L H f \<Longrightarrow> 0 < frame_weight f"
  by (cases f rule: frame_weight.cases) auto

lemma task_weight_pos: "task_ok L H q \<Longrightarrow> 0 < task_weight q"
  by (cases q) auto

lemma weights_zero_frames:
  assumes "list_all (frame_ok L H) fs" "sum_list (map frame_weight fs) = 0"
  shows "fs = []"
proof (cases fs)
  case (Cons f fs')
  with assms frame_weight_pos [of L H f] show ?thesis by simp
qed simp

lemma weights_zero_queue:
  assumes "list_all (task_ok L H) qs" "sum_list (map task_weight qs) = 0"
  shows "qs = []"
proof (cases qs)
  case (Cons q qs')
  with assms task_weight_pos [of L H q] show ?thesis by simp
qed simp

lemma pf_inv_call:
  assumes inv: "pf_inv L H N B s"
    and fr: "frames s = pre @ Frame t sb eb AtLoop # post"
    and one: "eb - sb = 1"
    and c: "ctx s = Some c"
    and lo: "lo = sb * pf_block_size c"
    and hi: "hi = min (pf_n c) (eb * pf_block_size c)"
    and s': "s' = s\<lparr>frames := pre @ Frame t sb eb (InCompute lo hi) # post,
            trace := trace s @ [(t, ComputeCall lo hi)]\<rparr>"
  shows "pf_inv L H N B s' \<and> Suc (remaining_steps s') = remaining_steps s"
proof -
  let ?s' = "s\<lparr>frames := pre @ Frame t sb eb (InCompute lo hi) # post,
            trace := trace s @ [(t, ComputeCall lo hi)]\<rparr>"
  from inv fr have ok: "L \<le> unat sb" "unat sb < unat eb" "unat eb \<le> H"
    by (auto simp: pf_inv_def)
  have e: "unat eb = Suc (unat sb)"
    using one one_less_diff(2) [OF ok(2)] by simp
  have eb: "eb = sb + 1"
    using one by (simp add: algebra_simps)
  from inv c have NB: "pf_n c = N" "pf_block_size c = B"
    by (auto simp: pf_inv_def ctx_ok_def)
  have r: "block_range N B (unat sb) = (lo, hi)"
    by (simp add: block_range_def lo hi eb NB)
  have 1: "todo s = add_mset (unat sb) (todo ?s')"
    by (simp add: todo_def fr e)
  have 2: "outstanding ?s' = outstanding s"
    by (simp add: outstanding_def fr e)
  have 3: "Suc (remaining_steps ?s') = remaining_steps s"
    by (simp add: remaining_steps_def fr e)
  have "pf_inv L H N B ?s'"
    using inv ok e r
    by (simp add: pf_inv_def ctx_ok_def 1 2 fr c
        calls_of_append returns_of_append enqueues_of_append on_dones_append)
  with 3 show ?thesis unfolding s' by simp
qed

lemma pf_inv_return:
  assumes inv: "pf_inv L H N B s"
    and fr: "frames s = pre @ Frame t sb eb (InCompute lo hi) # post"
    and s': "s' = s\<lparr>frames := pre @ Frame t sb eb AtDecrement # post,
            trace := trace s @ [(t, ComputeReturn lo hi)]\<rparr>"
  shows "pf_inv L H N B s' \<and> Suc (remaining_steps s') = remaining_steps s"
proof -
  let ?s' = "s\<lparr>frames := pre @ Frame t sb eb AtDecrement # post,
            trace := trace s @ [(t, ComputeReturn lo hi)]\<rparr>"
  from inv fr obtain c where c: "ctx s = Some c"
    by (cases "ctx s") (auto simp: pf_inv_def ctx_ok_def)
  have 1: "todo ?s' = todo s"
    by (simp add: todo_def fr)
  have 2: "outstanding ?s' = outstanding s"
    by (simp add: outstanding_def fr)
  have 3: "Suc (remaining_steps ?s') = remaining_steps s"
    by (simp add: remaining_steps_def fr)
  have "pf_inv L H N B ?s'"
    using inv
    by (simp add: pf_inv_def ctx_ok_def 1 2 fr c
        calls_of_append returns_of_append enqueues_of_append on_dones_append)
  with 3 show ?thesis unfolding s' by simp
qed

lemma pf_inv_last:
  assumes inv: "pf_inv L H N B s"
    and fr: "frames s = pre @ Frame t sb eb AtDecrement # post"
    and c: "ctx s = Some c"
    and one: "pf_pending_blocks c = 1"
    and s': "s' = s\<lparr>ctx := None, frames := pre @ post, trace := trace s @ [(t, OnDone)]\<rparr>"
  shows "pf_inv L H N B s' \<and> Suc (remaining_steps s') = remaining_steps s"
proof -
  let ?s' = "s\<lparr>ctx := None, frames := pre @ post, trace := trace s @ [(t, OnDone)]\<rparr>"
  from inv c one have out: "outstanding s = 1"
    by (auto simp: pf_inv_def ctx_ok_def)
  from inv fr have oks: "list_all (frame_ok L H) pre" "list_all (frame_ok L H) post"
    "list_all (task_ok L H) (queue s)"
    by (auto simp: pf_inv_def)
  from out have z: "sum_list (map frame_weight pre) = 0" "sum_list (map frame_weight post) = 0"
    "sum_list (map task_weight (queue s)) = 0"
    by (auto simp: outstanding_def fr)
  have emp: "pre = []" "post = []" "queue s = []"
    using oks z by (auto intro: weights_zero_frames weights_zero_queue)
  have 1: "todo (s\<lparr>ctx := None, frames := [], trace := trace s @ [(t, OnDone)]\<rparr>) = todo s"
    by (simp add: todo_def fr emp)
  have 3: "Suc (remaining_steps ?s') = remaining_steps s"
    by (simp add: remaining_steps_def fr)
  have "pf_inv L H N B ?s'"
    using inv
    by (simp add: pf_inv_def ctx_ok_def 1 fr c emp
        calls_of_append returns_of_append enqueues_of_append on_dones_append)
  with 3 show ?thesis unfolding s' by simp
qed

lemma pf_inv_decrement:
  assumes inv: "pf_inv L H N B s"
    and fr: "frames s = pre @ Frame t sb eb AtDecrement # post"
    and c: "ctx s = Some c"
    and one: "pf_pending_blocks c \<noteq> 1"
    and s': "s' = s\<lparr>ctx := Some (c\<lparr>pf_pending_blocks := pf_pending_blocks c - 1\<rparr>),
                 frames := pre @ post\<rparr>"
  shows "pf_inv L H N B s' \<and> Suc (remaining_steps s') = remaining_steps s"
proof -
  let ?s' = "s\<lparr>ctx := Some (c\<lparr>pf_pending_blocks := pf_pending_blocks c - 1\<rparr>),
                 frames := pre @ post\<rparr>"
  from inv c have out: "unat (pf_pending_blocks c) = outstanding s" "0 < outstanding s"
    by (auto simp: pf_inv_def ctx_ok_def)
  have "unat (pf_pending_blocks c) \<noteq> unat (1 :: size_t)"
    using one by (simp only: word_unat_eq_iff [symmetric]) simp
  then have ge: "2 \<le> outstanding s"
    using out by simp
  have "1 \<le> pf_pending_blocks c"
    using out by (simp add: word_le_nat_alt)
  then have dec: "unat (pf_pending_blocks c - 1) = outstanding s - 1"
    using out by (simp add: unat_sub)
  have 1: "todo ?s' = todo s"
    by (simp add: todo_def fr)
  have 2: "outstanding ?s' = outstanding s - 1"
    by (simp add: outstanding_def fr)
  have 3: "Suc (remaining_steps ?s') = remaining_steps s"
    by (simp add: remaining_steps_def fr)
  have "pf_inv L H N B ?s'"
    using inv ge dec
    by (simp add: pf_inv_def ctx_ok_def 1 2 fr c
        calls_of_append returns_of_append enqueues_of_append on_dones_append)
  with 3 show ?thesis unfolding s' by simp
qed

lemma pf_inv_take:
  assumes inv: "pf_inv L H N B s"
    and q: "queue s = pre @ (m, e) # post"
    and s': "s' = s\<lparr>queue := pre @ post, frames := frames s @ [Frame Worker m e AtLoop]\<rparr>"
  shows "pf_inv L H N B s' \<and> Suc (remaining_steps s') = remaining_steps s"
proof -
  let ?s' = "s\<lparr>queue := pre @ post, frames := frames s @ [Frame Worker m e AtLoop]\<rparr>"
  from inv q have ok: "L \<le> unat m" "unat m < unat e" "unat e \<le> H"
    by (auto simp: pf_inv_def)
  from inv q obtain c where c: "ctx s = Some c"
    by (cases "ctx s") (auto simp: pf_inv_def ctx_ok_def)
  have 1: "todo ?s' = todo s"
    by (simp add: todo_def q)
  have 2: "outstanding ?s' = outstanding s"
    by (simp add: outstanding_def q)
  have 3: "Suc (remaining_steps ?s') = remaining_steps s"
    using ok by (simp add: remaining_steps_def q)
  have "pf_inv L H N B ?s'"
    using inv ok
    by (simp add: pf_inv_def ctx_ok_def 1 2 q c)
  with 3 show ?thesis unfolding s' by simp
qed

lemma pf_inv_trans:
  assumes "pf_trans s s'" "pf_inv L H N B s"
  shows "pf_inv L H N B s' \<and> Suc (remaining_steps s') = remaining_steps s"
  using assms
proof (cases rule: pf_trans.cases)
  case (tr_split pre t sb eb post c mid)
  with assms(2) show ?thesis by (intro pf_inv_split [where c = c and mid = mid]) auto
next
  case (tr_assert pre t sb eb post)
  from assms(2) tr_assert(3) have lt: "unat sb < unat eb"
    by (auto simp: pf_inv_def)
  from tr_assert(4,5) one_less_diff [OF lt] lt have False by auto
  then show ?thesis ..
next
  case (tr_call pre t sb eb post c lo hi)
  with assms(2) show ?thesis by (intro pf_inv_call [where c = c]) auto
next
  case (tr_return pre t sb eb lo hi post)
  with assms(2) show ?thesis by (intro pf_inv_return) auto
next
  case (tr_last pre t sb eb post c)
  with assms(2) show ?thesis by (intro pf_inv_last [where c = c]) auto
next
  case (tr_decrement pre t sb eb post c)
  with assms(2) show ?thesis by (intro pf_inv_decrement [where c = c]) auto
next
  case (tr_freed pre t sb eb p post)
  with assms(2) have False by (auto simp: pf_inv_def ctx_ok_def)
  then show ?thesis ..
next
  case (tr_take pre m e post)
  with assms(2) show ?thesis by (intro pf_inv_take) auto
qed

lemma run_append: "run (as @ bs) s = (case run as s of None \<Rightarrow> None | Some s' \<Rightarrow> run bs s')"
  by (induction as arbitrary: s) (auto split: option.splits)

lemma pf_inv_run:
  assumes "run as s0 = Some s" "pf_inv L H N B s0"
  shows "pf_inv L H N B s \<and> length as + remaining_steps s = remaining_steps s0"
  using assms
proof (induction as arbitrary: s0)
  case Nil
  then show ?case by simp
next
  case (Cons a as)
  from Cons.prems(1) obtain s1 where a: "step a s0 = Some s1" and r: "run as s1 = Some s"
    by (auto split: option.splits)
  from pf_inv_trans [OF step_trans [OF a] Cons.prems(2)]
  have 1: "pf_inv L H N B s1" and 2: "Suc (remaining_steps s1) = remaining_steps s0"
    by auto
  from Cons.IH [OF r 1] 2 show ?case by simp
qed

lemma EvalBlocks_step_enabled:
  assumes "aborted s = None" "i < length (frames s)"
  shows "\<exists>s'. EvalBlocks_step i s = Some s'"
proof -
  obtain t sb eb p where f: "frames s ! i = Frame t sb eb p"
    by (cases "frames s ! i") auto
  show ?thesis
    using assms f
    by (cases p) (auto simp: EvalBlocks_step_def Let_def split: option.splits)
qed

lemma take_task_enabled:
  assumes "aborted s = None" "j < length (queue s)"
  shows "\<exists>s'. take_task j s = Some s'"
  using assms by (auto simp: take_task_def split: prod.splits)

lemma progress:
  assumes "aborted s = None" "\<not> finished s"
  shows "\<exists>a s'. step a s = Some s'"
proof (cases "frames s")
  case Nil
  with assms have "0 < length (queue s)" by (simp add: finished_def)
  from take_task_enabled [OF assms(1) this] obtain s' where "step (Take 0) s = Some s'"
    by auto
  then show ?thesis by blast
next
  case (Cons f fs)
  then have "0 < length (frames s)" by simp
  from EvalBlocks_step_enabled [OF assms(1) this] obtain s' where "step (Run 0) s = Some s'"
    by auto
  then show ?thesis by blast
qed

lemma completion:
  assumes "pf_inv L H N B s"
  shows "\<exists>as s'. run as s = Some s' \<and> finished s'"
  using assms
proof (induction "remaining_steps s" arbitrary: s rule: less_induct)
  case less
  show ?case
  proof (cases "finished s")
    case True
    then have "run [] s = Some s \<and> finished s" by simp
    then show ?thesis by blast
  next
    case False
    from less.prems have "aborted s = None" by (simp add: pf_inv_def)
    from progress [OF this False] obtain a s1 where a: "step a s = Some s1" by blast
    from pf_inv_trans [OF step_trans [OF a] less.prems]
    have 1: "pf_inv L H N B s1" and 2: "remaining_steps s1 < remaining_steps s" by auto
    from less.hyps [OF 2 1] obtain as s' where "run as s1 = Some s'" "finished s'" by blast
    with a have "run (a # as) s = Some s' \<and> finished s'" by simp
    then show ?thesis by blast
  qed
qed

lemma finished_facts:
  assumes inv: "pf_inv L H N B s" and fin: "finished s"
  shows "ctx s = None"
    and "\<exists>tr t. trace s = tr @ [(t, OnDone)] \<and> on_dones tr = 0
           \<and> mset (returns_of tr) = mset (calls_of tr)
           \<and> mset (calls_of tr) = image_mset (block_range N B) (mset [L..<H])"
    and "length (calls_of (trace s)) = H - L"
    and "length (calls_of (trace s)) = Suc (length (enqueues_of (trace s)))"
    and "remaining_steps s = 0"
proof -
  from fin have e: "frames s = []" "queue s = []" by (auto simp: finished_def)
  then have o: "outstanding s = 0" "todo s = {#}" by (auto simp: outstanding_def todo_def)
  with inv show c: "ctx s = None"
    by (cases "ctx s") (auto simp: pf_inv_def ctx_ok_def)
  with inv obtain tr t where tr: "trace s = tr @ [(t, OnDone)]" "on_dones tr = 0"
    by (auto simp: pf_inv_def ctx_ok_def)
  from inv o e have m: "mset (calls_of (trace s)) = image_mset (block_range N B) (mset [L..<H])"
    and r: "mset (returns_of (trace s)) = mset (calls_of (trace s))"
    and l: "length (calls_of (trace s)) = Suc (length (enqueues_of (trace s)))"
    by (auto simp: pf_inv_def)
  from m r tr show "\<exists>tr t. trace s = tr @ [(t, OnDone)] \<and> on_dones tr = 0
           \<and> mset (returns_of tr) = mset (calls_of tr)
           \<and> mset (calls_of tr) = image_mset (block_range N B) (mset [L..<H])"
    by (auto simp: calls_of_append returns_of_append)
  from m have "size (mset (calls_of (trace s))) = size (image_mset (block_range N B) (mset [L..<H]))"
    by simp
  then show "length (calls_of (trace s)) = H - L" by simp
  from l show "length (calls_of (trace s)) = Suc (length (enqueues_of (trace s)))" .
  from e show "remaining_steps s = 0" by (simp add: remaining_steps_def)
qed

lemma unat_of_nat_small:
  assumes "k < 2 ^ 64"
  shows "unat (of_nat k :: size_t) = k"
  using assms by (simp add: unat_of_nat)

lemma scast_pos:
  fixes workers :: cint
  assumes pos: "0 < sint workers"
  shows "(scast workers :: size_t) = of_nat (nat (sint workers))"
proof -
  have i: "int (nat (sint workers)) = sint workers" using pos by simp
  have "(of_nat (nat (sint workers)) :: size_t) = word_of_int (int (nat (sint workers)))"
    by (simp only: of_int_of_nat_eq)
  also have "\<dots> = word_of_int (sint workers)" by (simp only: i)
  also have "\<dots> = scast workers" by (rule scast_eq [symmetric])
  finally show ?thesis by (rule sym)
qed

lemma workers_divisor:
  fixes workers :: cint
  assumes "0 <s workers"
  shows "unat (kMaxOversharding * scast workers :: size_t) = 4 * nat (sint workers)"
    and "0 < nat (sint workers)" and "nat (sint workers) < 2 ^ 31"
proof -
  from assms have pos: "0 < sint workers" by (simp add: word_sless_alt)
  have lt: "sint workers < 2 ^ 31" using sint_lt [of workers] by simp
  show "0 < nat (sint workers)" using pos by simp
  show k: "nat (sint workers) < 2 ^ 31" using lt pos by simp
  have "(scast workers :: size_t) = of_nat (nat (sint workers))"
    using pos by (rule scast_pos)
  then have "kMaxOversharding * scast workers = (of_nat (4 * nat (sint workers)) :: size_t)"
    by (simp only: kMaxOversharding_def of_nat_mult of_nat_numeral)
  moreover have "4 * nat (sint workers) < 2 ^ 64" using k by simp
  ultimately show "unat (kMaxOversharding * scast workers :: size_t) = 4 * nat (sint workers)"
    by (simp only: unat_of_nat_small)
qed

lemma workers_divisor_nonzero:
  fixes workers :: cint
  assumes "0 <s workers"
  shows "kMaxOversharding * scast workers \<noteq> (0 :: size_t)"
proof
  assume "kMaxOversharding * scast workers = (0 :: size_t)"
  then have "unat (kMaxOversharding * scast workers :: size_t) = 0" by simp
  with workers_divisor(1,2) [OF assms] show False by simp
qed

lemma frame_steps_pos: "frame_ok L H f \<Longrightarrow> 0 < frame_steps f"
  by (cases f rule: frame_steps.cases) auto

lemma task_steps_pos: "task_ok L H q \<Longrightarrow> 0 < task_steps q"
  by (cases q) auto

lemma no_steps_finished:
  assumes inv: "pf_inv L H N B s" and z: "remaining_steps s = 0"
  shows "finished s"
proof -
  from inv have ok: "list_all (frame_ok L H) (frames s)" "list_all (task_ok L H) (queue s)"
    and ab: "aborted s = None"
    by (auto simp: pf_inv_def)
  have "frames s = []"
  proof (cases "frames s")
    case (Cons f fs)
    with ok(1) z frame_steps_pos [of L H f] show ?thesis
      by (simp add: remaining_steps_def)
  qed simp
  moreover have "queue s = []"
  proof (cases "queue s")
    case (Cons q qs)
    with ok(2) z task_steps_pos [of L H q] show ?thesis
      by (simp add: remaining_steps_def)
  qed simp
  ultimately show ?thesis using ab by (simp add: finished_def)
qed

lemma pf_inv_EvalBlocks:
  fixes lo hi :: size_t
  assumes "lo < hi" and "pf_pending_blocks c = hi - lo"
  shows "pf_inv (unat lo) (unat hi) (pf_n c) (pf_block_size c)
           \<lparr>ctx = Some c, frames = [Frame t lo hi AtLoop], queue = [], trace = [],
            aborted = None\<rparr>"
proof -
  from assms(1) have lt: "unat lo < unat hi" by (simp add: word_less_nat_alt)
  then have "lo \<le> hi" by (simp add: word_le_nat_alt)
  then have d: "unat (hi - lo) = unat hi - unat lo" by (rule unat_sub)
  show ?thesis
    using lt d assms(2)
    by (simp add: pf_inv_def ctx_ok_def outstanding_def todo_def)
qed

lemma split_step:
  assumes inv: "pf_inv L H N B s"
    and i: "i < length (frames s)"
    and f: "frames s ! i = Frame t sb eb AtLoop"
    and gt: "1 < eb - sb"
  shows "sb < sb + (eb - sb) div 2 \<and> sb + (eb - sb) div 2 < eb \<and>
         step (Run i) s =
           Some (s\<lparr>queue := queue s @ [(sb + (eb - sb) div 2, eb)],
                   frames := (frames s)[i := Frame t sb (sb + (eb - sb) div 2) AtLoop],
                   trace := trace s @ [(t, EnqueueWork (sb + (eb - sb) div 2) eb)]\<rparr>)"
proof -
  from inv i f have "frame_ok L H (Frame t sb eb AtLoop)"
    by (auto simp: pf_inv_def list_all_length)
  then have lt: "unat sb < unat eb" by simp
  have m: "unat (sb + (eb - sb) div 2) = unat sb + (unat eb - unat sb) div 2"
    using lt by (rule unat_mid_block)
  have k: "2 \<le> unat eb - unat sb"
    using gt one_less_diff(1) [OF lt] by simp
  have 1: "sb < sb + (eb - sb) div 2" "sb + (eb - sb) div 2 < eb"
    using m k by (auto simp: word_less_nat_alt)
  from inv i have "ctx s \<noteq> None" "aborted s = None"
    by (auto simp: pf_inv_def ctx_ok_def split: option.splits)
  then have "step (Run i) s =
           Some (s\<lparr>queue := queue s @ [(sb + (eb - sb) div 2, eb)],
                   frames := (frames s)[i := Frame t sb (sb + (eb - sb) div 2) AtLoop],
                   trace := trace s @ [(t, EnqueueWork (sb + (eb - sb) div 2) eb)]\<rparr>)"
    using i f gt by (auto simp: EvalBlocks_step_def Let_def)
  with 1 show ?thesis by simp
qed

lemma scast_ucast_small:
  fixes p :: size_t
  assumes "unat p < 2 ^ 31"
  shows "(scast (ucast p :: cint) :: size_t) = p"
proof -
  have "int (unat p) < 2 ^ 31" using assms by (simp only: of_nat_less_numeral_power_cancel_iff)
  then have u: "uint p < 2 ^ 31" by simp
  have "sint (ucast p :: cint) = signed_take_bit (LENGTH(32) - Suc 0) (uint p)"
    by (rule signed_ucast_eq)
  also have "\<dots> = uint p"
  proof (rule signed_take_bit_int_eq_self)
    have "- (2 ^ (LENGTH(32) - Suc 0)) \<le> (0 :: int)" by simp
    also have "0 \<le> uint p" by simp
    finally show "- (2 ^ (LENGTH(32) - Suc 0)) \<le> uint p" .
    show "uint p < 2 ^ (LENGTH(32) - Suc 0)" using u by simp
  qed
  finally have s: "sint (ucast p :: cint) = uint p" .
  have "(scast (ucast p :: cint) :: size_t) = word_of_int (sint (ucast p :: cint))"
    by (rule scast_eq)
  also have "\<dots> = word_of_int (uint p)" by (simp only: s)
  also have "\<dots> = p" by simp
  finally show ?thesis .
qed

lemma unat_DivUp:
  fixes n B :: size_t
  assumes "1 \<le> B" and "unat n + unat B - 1 < 2 ^ 64"
  shows "unat ((n + B - 1) div B) = (unat n + unat B - 1) div unat B"
proof -
  from assms(1) have b: "1 \<le> unat B" by (simp add: word_le_nat_alt)
  have e: "n + B - 1 = n + (B - 1)" by simp
  have m: "unat (B - 1) = unat B - 1" using assms(1) by (simp add: unat_sub)
  have "unat n + unat (B - 1) < 2 ^ LENGTH(64)"
    using assms(2) b m by simp
  then have "unat (n + (B - 1)) = unat n + unat (B - 1)"
    by (simp only: unat_add_lem [THEN iffD1])
  then have "unat (n + (B - 1)) = unat n + unat B - 1" using b m by simp
  then have "unat (n + B - 1) = unat n + unat B - 1" by (simp only: e)
  then show ?thesis by (simp only: unat_div)
qed

lemma unat_block_size:
  fixes workers :: cint
  assumes "0 <s workers"
  shows "unat (max min_block_size (n div (kMaxOversharding * scast workers)))
         = max (unat min_block_size) (unat n div (4 * nat (sint workers)))"
proof -
  have "unat (n div (kMaxOversharding * scast workers)) = unat n div (4 * nat (sint workers))"
    by (simp only: unat_div workers_divisor(1) [OF assms])
  then show ?thesis
    by (simp add: max_def word_le_nat_alt)
qed

lemma ParallelFor_sync:
  assumes "1 \<le> min_block_size" and "0 <s workers"
    and "n \<le> max min_block_size (n div (kMaxOversharding * scast workers))"
  shows "ParallelFor workers n min_block_size =
           \<lparr>ctx = None, frames = [], queue = [],
            trace = [(Caller, ComputeCall 0 n), (Caller, ComputeReturn 0 n), (Caller, OnDone)],
            aborted = None\<rparr>"
proof -
  have d: "kMaxOversharding * scast workers \<noteq> (0 :: size_t)"
    using assms(2) by (rule workers_divisor_nonzero)
  have "1 \<le> max min_block_size (n div (kMaxOversharding * scast workers))"
    using assms(1) by (simp add: le_max_iff_disj)
  then show ?thesis
    using d assms(1,3) by (simp add: ParallelFor_def Let_def)
qed

lemma ParallelFor_async:
  assumes "1 \<le> min_block_size" and "0 <s workers"
    and B: "B = max min_block_size (n div (kMaxOversharding * scast workers))"
    and gt: "\<not> n \<le> B"
    and ovf: "unat n + unat B - 1 < 2 ^ 64"
    and small: "(unat n + unat B - 1) div unat B < 2 ^ 31"
    and p: "p = (n + B - 1) div B"
  shows "ParallelFor workers n min_block_size =
           \<lparr>ctx = Some \<lparr>pf_n = n, pf_block_size = B, pf_pending_blocks = p\<rparr>,
            frames = [Frame Caller 0 p AtLoop], queue = [], trace = [], aborted = None\<rparr>"
    and "unat p = (unat n + unat B - 1) div unat B"
proof -
  have d: "kMaxOversharding * scast workers \<noteq> (0 :: size_t)"
    using assms(2) by (rule workers_divisor_nonzero)
  have b1: "1 \<le> B"
    using assms(1) by (simp add: B le_max_iff_disj)
  then have b0: "0 < B" by (simp add: word_less_nat_alt word_le_nat_alt)
  show up: "unat p = (unat n + unat B - 1) div unat B"
    unfolding p using b1 ovf by (rule unat_DivUp)
  then have "unat p < 2 ^ 31" using small by simp
  then have sc: "scast (ucast p :: cint) = p" by (rule scast_ucast_small)
  show "ParallelFor workers n min_block_size =
           \<lparr>ctx = Some \<lparr>pf_n = n, pf_block_size = B, pf_pending_blocks = p\<rparr>,
            frames = [Frame Caller 0 p AtLoop], queue = [], trace = [], aborted = None\<rparr>"
    using d assms(1) b1 b0 gt sc
    by (simp add: ParallelFor_def Let_def B [symmetric] Allocate_def DivUp_def
        PendingBlocks_def p [symmetric])
qed

lemma blocks_nat:
  fixes n B :: nat
  assumes "B < n" "0 < B"
  shows "0 < (n + B - 1) div B" and "(n + B - 1) div B * B \<le> n + B - 1"
    and "i < n \<Longrightarrow> i div B < (n + B - 1) div B"
proof -
  have e: "(n + B - 1) div B = Suc ((n - 1) div B)"
  proof -
    have eq: "n + B - 1 = (n - 1) + B" using assms by linarith
    have "((n - 1) + B) div B = Suc ((n - 1) div B)"
      using assms(2) by (simp only: div_add_self2 [OF less_imp_neq [THEN not_sym]] Suc_eq_plus1)
    then show ?thesis by (simp only: eq)
  qed
  show "0 < (n + B - 1) div B" unfolding e by simp
  show "(n + B - 1) div B * B \<le> n + B - 1" by simp
  show "i div B < (n + B - 1) div B" if "i < n"
  proof -
    from that have "i \<le> n - 1" by simp
    then have "i div B \<le> (n - 1) div B" by (rule div_le_mono)
    then show ?thesis unfolding e by simp
  qed
qed

lemma block_range_unat:
  assumes "Suc b * unat B < 2 ^ 64" and "0 < unat B"
  shows "unat (fst (block_range N B b)) = b * unat B"
    and "unat (snd (block_range N B b)) = min (unat N) (Suc b * unat B)"
proof -
  have "Suc b * 1 \<le> Suc b * unat B" using assms(2) by (intro mult_le_mono2) simp
  then have "Suc b \<le> Suc b * unat B" by simp
  then have sb: "Suc b < 2 ^ 64" using assms(1) by simp
  then have ub: "unat (of_nat b :: size_t) = b" "unat (of_nat (Suc b) :: size_t) = Suc b"
    by (simp_all only: unat_of_nat_small Suc_lessD)
  have "b * unat B \<le> Suc b * unat B" by simp
  then have "unat (of_nat b :: size_t) * unat B < 2 ^ LENGTH(64)"
    using assms(1) ub by simp
  then have 1: "unat (of_nat b * B) = b * unat B"
    using ub by (simp only: unat_mult_lem [THEN iffD1])
  have "unat (of_nat (Suc b) :: size_t) * unat B < 2 ^ LENGTH(64)"
    using assms(1) ub by simp
  then have 2: "unat (of_nat (Suc b) * B) = Suc b * unat B"
    using ub by (simp only: unat_mult_lem [THEN iffD1])
  have 3: "(of_nat b + 1 :: size_t) = of_nat (Suc b)" by simp
  show "unat (fst (block_range N B b)) = b * unat B"
    by (simp add: block_range_def 1)
  have "unat (min N (of_nat (Suc b) * B)) = min (unat N) (unat (of_nat (Suc b) * B))"
    by (simp add: min_def word_le_nat_alt)
  then show "unat (snd (block_range N B b)) = min (unat N) (Suc b * unat B)"
    by (simp only: block_range_def snd_conv 3 2)
qed

lemma div_eq_block:
  fixes i k b :: nat
  assumes "0 < k"
  shows "(b * k \<le> i \<and> i < Suc b * k) = (i div k = b)"
proof
  assume "b * k \<le> i \<and> i < Suc b * k"
  then show "i div k = b"
    by (intro div_nat_eqI) (simp_all add: mult.commute)
next
  assume e: "i div k = b"
  have "i div k * k \<le> i" by simp
  moreover have "i < Suc (i div k) * k"
    using assms dividend_less_div_times [of k i] by simp
  ultimately show "b * k \<le> i \<and> i < Suc b * k" using e by simp
qed

lemma covers_block:
  assumes "Suc b * unat B < 2 ^ 64" and "0 < unat B" and "i < unat N"
  shows "covers i (block_range N B b) = (b = i div unat B)"
  using assms(3) div_eq_block [OF assms(2), of b i]
  by (auto simp: covers_def block_range_unat [OF assms(1,2)])

lemma filter_eq_upt: "length (filter (\<lambda>b. b = k) [0..<P]) = (if k < P then 1 else 0)"
  by (induction P) auto

lemma covered_once:
  assumes calls: "mset cs = image_mset (block_range N B) (mset [0..<P])"
    and P: "P * unat B < 2 ^ 64" and B: "0 < unat B"
    and i: "i < unat N" and iP: "i div unat B < P"
  shows "length (filter (covers i) cs) = 1"
proof -
  have "length (filter (covers i) cs) = size (filter_mset (covers i) (mset cs))"
    by (simp flip: mset_filter)
  also have "\<dots> = size (filter_mset (\<lambda>b. covers i (block_range N B b)) (mset [0..<P]))"
    by (simp only: calls filter_mset_image_mset size_image_mset)
  also have "\<dots> = length (filter (\<lambda>b. covers i (block_range N B b)) [0..<P])"
    by (simp only: mset_filter [symmetric] size_mset)
  also have "filter (\<lambda>b. covers i (block_range N B b)) [0..<P]
             = filter (\<lambda>b. b = i div unat B) [0..<P]"
  proof (rule filter_cong [OF refl])
    fix b assume "b \<in> set [0..<P]"
    then have "Suc b \<le> P" by simp
    then have "Suc b * unat B \<le> P * unat B" by (rule mult_le_mono1)
    then have "Suc b * unat B < 2 ^ 64" using P by simp
    then show "covers i (block_range N B b) = (b = i div unat B)"
      using B i by (rule covers_block)
  qed
  also have "length (filter (\<lambda>b. b = i div unat B) [0..<P]) = 1"
    using iP by (simp add: filter_eq_upt)
  finally show ?thesis .
qed

lemma calls_within:
  assumes calls: "mset cs = image_mset (block_range N B) (mset [0..<P])"
    and P: "P * unat B < 2 ^ 64" and B: "0 < unat B"
    and r: "r \<in> set cs"
  shows "unat (fst r) < unat (snd r) \<or> unat N \<le> unat (fst r)" and "unat (snd r) \<le> unat N"
proof -
  from r have "r \<in># mset cs" by simp
  then obtain b where b: "b < P" "r = block_range N B b"
    unfolding calls by auto
  then have "Suc b \<le> P" by simp
  then have "Suc b * unat B \<le> P * unat B" by (rule mult_le_mono1)
  then have s: "Suc b * unat B < 2 ^ 64" using P by simp
  from block_range_unat [OF s B, of N] b(2) B
  show "unat (fst r) < unat (snd r) \<or> unat N \<le> unat (fst r)" and "unat (snd r) \<le> unat N"
    by auto
qed

lemma pf_inv_ParallelFor:
  assumes mb: "1 \<le> min_block_size" and w: "0 <s workers"
    and B: "B = max min_block_size (n div (kMaxOversharding * scast workers))"
    and ovf: "unat n + unat B - 1 < 2 ^ 64"
    and small: "(unat n + unat B - 1) div unat B < 2 ^ 31"
  shows "\<exists>P. pf_inv 0 P n B (ParallelFor workers n min_block_size)
           \<and> P * unat B < 2 ^ 64 \<and> (\<forall>i<unat n. i div unat B < P)"
proof (cases "n \<le> B")
  case True
  have s0: "ParallelFor workers n min_block_size =
           \<lparr>ctx = None, frames = [], queue = [],
            trace = [(Caller, ComputeCall 0 n), (Caller, ComputeReturn 0 n), (Caller, OnDone)],
            aborted = None\<rparr>"
    using mb w True unfolding B by (rule ParallelFor_sync)
  have r: "block_range n B 0 = (0, n)"
    using True by (simp add: block_range_def min_def)
  have tr: "[(Caller, ComputeCall 0 n), (Caller, ComputeReturn 0 n), (Caller, OnDone)]
              = [(Caller, ComputeCall 0 n), (Caller, ComputeReturn 0 n)] @ [(Caller, OnDone)]"
    by simp
  have ex: "\<exists>tr t. [(Caller, ComputeCall 0 n), (Caller, ComputeReturn 0 n), (Caller, OnDone)]
              = tr @ [(t, OnDone)] \<and> on_dones tr = 0"
    by (rule exI [of _ "[(Caller, ComputeCall 0 n), (Caller, ComputeReturn 0 n)]"],
        rule exI [of _ Caller]) simp
  have "pf_inv 0 1 n B (ParallelFor workers n min_block_size)"
    using r ex by (simp add: s0 pf_inv_def ctx_ok_def todo_def)
  moreover have "1 * unat B < 2 ^ 64"
    using unsigned_less [of B, where 'a = nat] by simp
  moreover have "\<forall>i<unat n. i div unat B < 1"
    using True by (auto simp: word_le_nat_alt)
  ultimately show ?thesis by blast
next
  case False
  define p where "p = (n + B - 1) div B"
  let ?P = "(unat n + unat B - 1) div unat B"
  from ParallelFor_async [OF mb w B False ovf small p_def]
  have s0: "ParallelFor workers n min_block_size =
           \<lparr>ctx = Some \<lparr>pf_n = n, pf_block_size = B, pf_pending_blocks = p\<rparr>,
            frames = [Frame Caller 0 p AtLoop], queue = [], trace = [], aborted = None\<rparr>"
    and up: "unat p = ?P"
    by simp_all
  have b1: "1 \<le> B" using mb by (simp add: B le_max_iff_disj)
  then have ub: "0 < unat B" by (simp add: word_le_nat_alt)
  from False have lt: "unat B < unat n" by (simp add: word_le_nat_alt)
  note bl = blocks_nat [OF lt ub]
  have "pf_inv 0 ?P n B (ParallelFor workers n min_block_size)"
    using bl(1) up by (simp add: s0 pf_inv_def ctx_ok_def outstanding_def todo_def)
  moreover have "?P * unat B < 2 ^ 64"
    using bl(2) ovf by (rule le_less_trans)
  moreover have "\<forall>i<unat n. i div unat B < ?P"
    using bl(3) by blast
  ultimately show ?thesis by blast
qed

text \<open>
  Where the arithmetic of \<open>size_t\<close> and \<open>int\<close> does not overflow (the sum
  \<open>n + block_size - 1\<close> of \<open>DivUp\<close> fits 64 bits and the number of blocks, which
  \<open>PendingBlocks\<close> returns as an \<open>int\<close>, is below \<open>2^31\<close>), \<open>ParallelFor\<close> does
  partition the range under every schedule: the program never aborts and can always
  be run to the end; at the end every index below \<open>n\<close> lies in the range of exactly
  one call of \<open>compute\<close>, no call reaches beyond \<open>n\<close>, and \<open>on_done\<close> is the last
  event, called once, after every call of \<open>compute\<close> has returned.
\<close>

lemma ParallelFor_partition:
  assumes mb: "1 \<le> min_block_size" and w: "0 <s workers"
    and B: "B = max min_block_size (n div (kMaxOversharding * scast workers))"
    and ovf: "unat n + unat B - 1 < 2 ^ 64"
    and small: "(unat n + unat B - 1) div unat B < 2 ^ 31"
    and run: "run as (ParallelFor workers n min_block_size) = Some s"
  shows "aborted s = None
       \<and> (\<exists>as' s'. run as' s = Some s' \<and> finished s')
       \<and> (finished s \<longrightarrow>
            (\<forall>i<unat n. length (filter (covers i) (calls_of (trace s))) = 1)
          \<and> (\<forall>r\<in>set (calls_of (trace s)). unat (snd r) \<le> unat n)
          \<and> (\<exists>tr t. trace s = tr @ [(t, OnDone)] \<and> on_dones tr = 0
                \<and> mset (returns_of tr) = mset (calls_of tr)))"
proof -
  from pf_inv_ParallelFor [OF mb w B ovf small] obtain P where
    inv0: "pf_inv 0 P n B (ParallelFor workers n min_block_size)"
    and P: "P * unat B < 2 ^ 64" and iP: "\<forall>i<unat n. i div unat B < P"
    by blast
  have b1: "1 \<le> B" using mb by (simp add: B le_max_iff_disj)
  then have ub: "0 < unat B" by (simp add: word_le_nat_alt)
  from pf_inv_run [OF run inv0] have inv: "pf_inv 0 P n B s" by simp
  then have ab: "aborted s = None" by (simp add: pf_inv_def)
  have comp: "\<exists>as' s'. run as' s = Some s' \<and> finished s'"
    using inv by (rule completion)
  have fin: "(\<forall>i<unat n. length (filter (covers i) (calls_of (trace s))) = 1)
          \<and> (\<forall>r\<in>set (calls_of (trace s)). unat (snd r) \<le> unat n)
          \<and> (\<exists>tr t. trace s = tr @ [(t, OnDone)] \<and> on_dones tr = 0
                \<and> mset (returns_of tr) = mset (calls_of tr))" if f: "finished s"
  proof -
    from finished_facts(2) [OF inv f] obtain tr t where
      tr: "trace s = tr @ [(t, OnDone)]" "on_dones tr = 0"
        "mset (returns_of tr) = mset (calls_of tr)"
        "mset (calls_of tr) = image_mset (block_range n B) (mset [0..<P])"
      by blast
    have c: "calls_of (trace s) = calls_of tr"
      by (simp add: tr(1) calls_of_append)
    have 1: "\<forall>i<unat n. length (filter (covers i) (calls_of (trace s))) = 1"
      unfolding c using covered_once [OF tr(4) P ub] iP by blast
    have 2: "\<forall>r\<in>set (calls_of (trace s)). unat (snd r) \<le> unat n"
      unfolding c using calls_within(2) [OF tr(4) P ub] by blast
    from 1 2 tr(1,2,3) show ?thesis by blast
  qed
  from ab comp fin show ?thesis by blast
qed

section \<open>RunWhenReady: lemmas\<close>

lemma all_waiters_pool: "all_waiters s = pool (avalues s) (flushes s)"
  by (simp add: all_waiters_def pool_def)

lemma sum_list_update_mset:
  fixes f :: "'a \<Rightarrow> 'b multiset"
  assumes "v < length xs"
  shows "sum_list (map f (xs[v := y])) + f (xs ! v) = sum_list (map f xs) + f y"
proof -
  from nth_split3 [OF assms] obtain pre post where
    "xs = pre @ xs ! v # post" "xs[v := y] = pre @ y # post"
    by metis
  then have "sum_list (map f xs) = sum_list (map f pre) + f (xs ! v) + sum_list (map f post)"
    and "sum_list (map f (xs[v := y])) = sum_list (map f pre) + f y + sum_list (map f post)"
    by (metis (no_types) list.simps(9) map_append sum_list.Cons sum_list.append add.assoc)+
  then show ?thesis by (simp add: ac_simps)
qed

lemma sum_list_remove_mset:
  fixes f :: "'a \<Rightarrow> 'b multiset"
  assumes "v < length xs"
  shows "sum_list (map f (remove_nth v xs)) + f (xs ! v) = sum_list (map f xs)"
proof -
  from nth_split3 [OF assms] obtain pre post where
    "xs = pre @ xs ! v # post" "remove_nth v xs = pre @ post"
    by metis
  then have "sum_list (map f xs) = sum_list (map f pre) + f (xs ! v) + sum_list (map f post)"
    and "sum_list (map f (remove_nth v xs)) = sum_list (map f pre) + sum_list (map f post)"
    by (metis (no_types) list.simps(9) map_append sum_list.Cons sum_list.append add.assoc)+
  then show ?thesis by (simp add: ac_simps)
qed

lemma in_sum_list_mset:
  fixes f :: "'a \<Rightarrow> 'b multiset"
  assumes "x \<in> set xs" "w \<in># f x"
  shows "w \<in># sum_list (map f xs)"
  using assms by (induction xs) auto

lemma waiter_in_all:
  assumes "v < length (avalues s)" "w \<in> set (waiters (avalues s ! v))"
  shows "w \<in># all_waiters s"
proof -
  have "avalues s ! v \<in> set (avalues s)" using assms(1) by simp
  moreover have "w \<in># mset (waiters (avalues s ! v))" using assms(2) by simp
  ultimately have "w \<in># sum_list (map (\<lambda>a. mset (waiters a)) (avalues s))"
    by (rule in_sum_list_mset)
  then show ?thesis by (simp add: all_waiters_def)
qed

lemma AndThen_push:
  assumes "failure s = None" "v < length (avalues s)" "\<not> IsAvailable s v"
  shows "AndThen t v w s = push v w s"
  using assms by (simp add: AndThen_def push_def)

lemma AndThen_run:
  assumes "failure s = None" "v < length (avalues s)" "IsAvailable s v"
  shows "AndThen t v w s = run_waiter t w s"
  using assms by (simp add: AndThen_def)

lemma all_waiters_push:
  assumes "v < length (avalues s)"
  shows "all_waiters (push v w s) = add_mset w (all_waiters s)"
proof -
  let ?f = "\<lambda>a. mset (waiters a)"
  let ?y = "(avalues s ! v)\<lparr>waiters := w # waiters (avalues s ! v)\<rparr>"
  from sum_list_update_mset [OF assms, of ?f ?y]
  have "sum_list (map ?f ((avalues s)[v := ?y])) + ?f (avalues s ! v)
          = sum_list (map ?f (avalues s)) + add_mset w (?f (avalues s ! v))"
    by simp
  then have "sum_list (map ?f ((avalues s)[v := ?y])) = add_mset w (sum_list (map ?f (avalues s)))"
    by simp
  then show ?thesis by (simp add: all_waiters_def push_def)
qed

lemma push_fields:
  "records (push v w s) = records s" "invocations (push v w s) = invocations s"
  "failure (push v w s) = failure s" "next_record (push v w s) = next_record s"
  "call (push v w s) = call s" "flushes (push v w s) = flushes s"
  "length (avalues (push v w s)) = length (avalues s)"
  by (simp_all add: push_def)

lemma IsAvailable_push: "IsAvailable (push v w s) x = IsAvailable s x"
  by (cases "x = v"; cases "v < length (avalues s)")
     (simp_all add: IsAvailable_def push_def list_update_beyond)

lemma waiters_push:
  assumes "v < length (avalues s)"
  shows "waiters (avalues (push v w s) ! x)
           = (if x = v then w # waiters (avalues s ! v) else waiters (avalues s ! x))"
  using assms by (simp add: push_def)

lemma heap_ok_push:
  assumes ok: "heap_ok vals s" and v: "v \<in> set vals" and u: "\<not> IsAvailable s v"
  shows "heap_ok vals (push v w s)"
proof -
  from ok v have lt: "v < length (avalues s)" by (simp add: heap_ok_def)
  have 3: "\<forall>a\<in>set (avalues (push v w s)). state_of a \<noteq> Unresolved \<longrightarrow> waiters a = []"
  proof
    fix a assume "a \<in> set (avalues (push v w s))"
    then have "a = (avalues s ! v)\<lparr>waiters := w # waiters (avalues s ! v)\<rparr> \<or> a \<in> set (avalues s)"
      using set_update_subset_insert [of "avalues s" v] by (auto simp: push_def)
    then show "state_of a \<noteq> Unresolved \<longrightarrow> waiters a = []"
      using ok u by (auto simp: heap_ok_def IsAvailable_def)
  qed
  have 4: "\<forall>x<length (avalues (push v w s)). x \<notin> set vals \<longrightarrow>
             (\<forall>w'\<in>set (waiters (avalues (push v w s) ! x)). is_other w')"
    using ok v lt by (auto simp: heap_ok_def waiters_push push_fields)
  from ok 3 4 show ?thesis
    by (simp add: heap_ok_def push_fields)
qed

lemma avalues_run_waiter: "avalues (run_waiter t w h) = avalues h"
  by (simp add: run_waiter_def split: waiter.splits option.splits)

lemma run_waiter_fields:
  "flushes (run_waiter t w s) = flushes s"
  "call (run_waiter t w s) = call s" "next_record (run_waiter t w s) = next_record s"
  by (simp_all add: run_waiter_def split: waiter.splits option.splits)

lemma all_waiters_run_waiter: "all_waiters (run_waiter t w s) = all_waiters s"
  by (simp add: all_waiters_def run_waiter_fields avalues_run_waiter)

lemma IsAvailable_run_waiter: "IsAvailable (run_waiter t w s) x = IsAvailable s x"
  by (simp add: IsAvailable_def avalues_run_waiter)

lemma all_waiters_updates:
  "all_waiters (s\<lparr>call := x\<rparr>) = all_waiters s"
  "all_waiters (s\<lparr>invocations := i\<rparr>) = all_waiters s"
  "all_waiters (s\<lparr>records := r\<rparr>) = all_waiters s"
  "all_waiters (s\<lparr>next_record := n\<rparr>) = all_waiters s"
  by (simp_all add: all_waiters_def)

lemma IsAvailable_updates:
  "IsAvailable (s\<lparr>call := x\<rparr>) v = IsAvailable s v"
  "IsAvailable (s\<lparr>invocations := i\<rparr>) v = IsAvailable s v"
  "IsAvailable (s\<lparr>records := r\<rparr>) v = IsAvailable s v"
  "IsAvailable (s\<lparr>next_record := n\<rparr>) v = IsAvailable s v"
  "IsAvailable (s\<lparr>flushes := f\<rparr>) v = IsAvailable s v"
  by (simp_all add: IsAvailable_def)

lemma heap_ok_updates:
  "heap_ok vals (s\<lparr>call := x\<rparr>) = heap_ok vals s"
  "heap_ok vals (s\<lparr>invocations := i\<rparr>) = heap_ok vals s"
  "heap_ok vals (s\<lparr>records := r\<rparr>) = heap_ok vals s"
  "heap_ok vals (s\<lparr>next_record := n\<rparr>) = heap_ok vals s"
  "heap_ok vals (s\<lparr>flushes := f\<rparr>) = heap_ok vals s"
  by (simp_all add: heap_ok_def)

lemma count_others:
  assumes "\<forall>w\<in>#W. is_other w"
  shows "count W (RunCallee c) = 0" and "count W (DecrementAndTest d) = 0"
  using assms by (auto simp: count_eq_zero_iff)

lemma count_no_runs:
  assumes "\<forall>w\<in>#W. is_other w \<or> w = DecrementAndTest d"
  shows "count W (RunCallee c) = 0"
  using assms by (auto simp: count_eq_zero_iff)

lemma unat_counter_dec:
  fixes x :: size_t
  assumes "unat x = Suc k"
  shows "unat (x - 1) = k" and "(x = 1) = (k = 0)"
proof -
  have "1 \<le> x" using assms by (simp add: word_le_nat_alt)
  then show "unat (x - 1) = k" using assms by (simp add: unat_sub)
  have "(x = 1) = (unat x = unat (1 :: size_t))" by (simp only: word_unat_eq_iff)
  then show "(x = 1) = (k = 0)" using assms by simp
qed

lemma inv_scan_step:
  assumes inv: "rwr_inv vals c d s" and call: "call s = Scanning t (i # rest) acc c'"
  shows "call_step s = Some (s\<lparr>call := Scanning t rest
            (if IsAvailable s i then acc else acc @ [i]) c'\<rparr>)"
    and "rwr_inv vals c d (s\<lparr>call := Scanning t rest
            (if IsAvailable s i then acc else acc @ [i]) c'\<rparr>)"
proof -
  from inv call have ok: "heap_ok vals s" and c': "c' = c"
    and sc: "scanning_inv vals c d (i # rest) acc s"
    by (auto simp: rwr_inv_def)
  from sc obtain done' where d: "vals = done' @ i # rest" "length acc \<le> length done'"
    "\<forall>v\<in>set done'. v \<in> set acc \<or> IsAvailable s v"
    by (auto simp: scanning_inv_def)
  from d(1) have iv: "i \<in> set vals" by simp
  with ok have lt: "i < length (avalues s)" and f: "failure s = None"
    by (auto simp: heap_ok_def)
  show "call_step s = Some (s\<lparr>call := Scanning t rest
            (if IsAvailable s i then acc else acc @ [i]) c'\<rparr>)"
    using call lt f by (simp add: call_step_def)
  let ?acc = "if IsAvailable s i then acc else acc @ [i]"
  have "vals = (done' @ [i]) @ rest \<and> length ?acc \<le> length (done' @ [i])
          \<and> (\<forall>v\<in>set (done' @ [i]). v \<in> set ?acc \<or> IsAvailable s v)"
    using d by auto
  then have ex: "\<exists>dn. vals = dn @ rest \<and> length ?acc \<le> length dn
          \<and> (\<forall>v\<in>set dn. v \<in> set ?acc \<or> IsAvailable s v)"
    by blast
  have sub: "set ?acc \<subseteq> set vals"
    using sc iv by (auto simp: scanning_inv_def)
  have "scanning_inv vals c d rest ?acc (s\<lparr>call := Scanning t rest ?acc c'\<rparr>)"
    using sc ex sub
    by (simp add: scanning_inv_def all_waiters_updates IsAvailable_updates)
  then show "rwr_inv vals c d (s\<lparr>call := Scanning t rest ?acc c'\<rparr>)"
    using ok c' by (simp add: rwr_inv_def heap_ok_updates)
qed

lemma inv_dispatch:
  assumes inv: "rwr_inv vals c d s" and call: "call s = Scanning t [] acc c'"
    and step: "call_step s = Some s'"
  shows "rwr_inv vals c d s'"
proof -
  from inv call have ok: "heap_ok vals s" and c': "c' = c"
    and sc: "scanning_inv vals c d [] acc s"
    by (auto simp: rwr_inv_def)
  from ok have f: "failure s = None" and len: "length vals < 2 ^ 64"
    and rng: "\<forall>v\<in>set vals. v < length (avalues s)"
    by (auto simp: heap_ok_def)
  from sc have i0: "invocations s = []" and r0: "records s = Map.empty" and n0: "next_record s = d"
    and oth: "\<forall>w\<in>#all_waiters s. is_other w"
    and la: "length acc \<le> length vals"
    and av: "\<forall>v\<in>set vals. v \<in> set acc \<or> IsAvailable s v"
    and sub: "set acc \<subseteq> set vals"
    by (auto simp: scanning_inv_def)
  note cnt = count_others [OF oth]
  consider (none) "acc = []" | (one) u where "acc = [u]" | (many) "2 \<le> length acc"
    by (cases acc rule: list.exhaust; cases "tl acc") auto
  then show ?thesis
  proof cases
    case none
    with step call f c' have s': "s' = s\<lparr>invocations := invocations s @ [(t, c)], call := Returned\<rparr>"
      by (simp add: call_step_def)
    have "returned_inv vals c d s'"
      using oth av none i0 r0 cnt
      by (auto simp: returned_inv_def s' all_waiters_updates IsAvailable_updates)
    then show ?thesis using ok by (simp add: rwr_inv_def s' heap_ok_updates)
  next
    case one
    with sub rng have uv: "u \<in> set vals" and ul: "u < length (avalues s)" by auto
    show ?thesis
    proof (cases "IsAvailable s u")
      case True
      with step call f c' one ul
      have s': "s' = s\<lparr>invocations := invocations s @ [(t, c)], call := Returned\<rparr>"
        by (simp add: call_step_def AndThen_def run_waiter_def)
      have "\<forall>v\<in>set vals. IsAvailable s v" using av one True by auto
      then have "returned_inv vals c d s'"
        using oth i0 r0 cnt
        by (auto simp: returned_inv_def s' all_waiters_updates IsAvailable_updates)
      then show ?thesis using ok by (simp add: rwr_inv_def s' heap_ok_updates)
    next
      case False
      with step call f c' one ul
      have s': "s' = (push u (RunCallee c) s)\<lparr>call := Returned\<rparr>"
        by (simp add: call_step_def AndThen_push)
      have W: "all_waiters s' = add_mset (RunCallee c) (all_waiters s)"
        by (simp add: s' all_waiters_updates all_waiters_push [OF ul])
      have 1: "\<forall>w\<in>#all_waiters s'. is_other w \<or> w = RunCallee c \<or> w = DecrementAndTest d"
        using oth by (auto simp: W)
      have 2: "\<forall>v\<in>set vals. IsAvailable s' v \<or> RunCallee c \<in> set (waiters (avalues s' ! v))
          \<or> DecrementAndTest d \<in> set (waiters (avalues s' ! v))"
        using av one by (auto simp: s' IsAvailable_updates IsAvailable_push waiters_push [OF ul])
      have 3: "records s' = Map.empty \<and> count (all_waiters s') (DecrementAndTest d) = 0 \<and>
        length (invocations s') + count (all_waiters s') (RunCallee c) = 1 \<and>
        (\<forall>e\<in>set (invocations s'). snd e = c)"
        using cnt i0 r0 by (simp add: W) (simp add: s' push_fields)
      have "returned_inv vals c d s'"
        unfolding returned_inv_def using 1 2 3 by blast
      moreover have "heap_ok vals s'"
        using heap_ok_push [OF ok uv False] by (simp add: s' heap_ok_updates)
      ultimately show ?thesis by (simp add: rwr_inv_def s')
    qed
  next
    case many
    then have ne: "acc \<noteq> []" "length acc \<noteq> 1" by auto
    let ?r = "\<lparr>counter = of_nat (length acc), callee = c\<rparr>"
    from step call f c' ne n0 r0
    have s': "s' = s\<lparr>records := [d \<mapsto> ?r], next_record := Suc d, call := Attaching t d acc\<rparr>"
      by (simp add: call_step_def Let_def)
    have "length acc < 2 ^ 64" using la len by simp
    then have u: "unat (of_nat (length acc) :: size_t) = length acc"
      by (rule unat_of_nat_small)
    have "attaching_inv vals c d acc s'"
      using oth av sub i0 cnt u
      by (auto simp: attaching_inv_def s' all_waiters_updates IsAvailable_updates)
    then show ?thesis using ok ne by (simp add: rwr_inv_def s' heap_ok_updates)
  qed
qed

lemma inv_attach:
  assumes inv: "rwr_inv vals c d s" and call: "call s = Attaching t d' (v # rest)"
    and step: "call_step s = Some s'"
  shows "rwr_inv vals c d s'"
proof -
  from inv call have ok: "heap_ok vals s" and d': "d' = d"
    and at: "attaching_inv vals c d (v # rest) s"
    by (auto simp: rwr_inv_def)
  from ok have f: "failure s = None"
    and rng: "\<forall>x\<in>set vals. x < length (avalues s)"
    by (auto simp: heap_ok_def)
  from at obtain r where i0: "invocations s = []"
    and oth: "\<forall>w\<in>#all_waiters s. is_other w \<or> w = DecrementAndTest d"
    and r: "records s = [d \<mapsto> r]" "callee r = c"
      "unat (counter r) = Suc (length rest + count (all_waiters s) (DecrementAndTest d))"
    and sub: "set (v # rest) \<subseteq> set vals"
    and av: "\<forall>x\<in>set vals. IsAvailable s x \<or> x \<in> set (v # rest)
          \<or> DecrementAndTest d \<in> set (waiters (avalues s ! x))"
    by (auto simp: attaching_inv_def)
  from sub rng have vv: "v \<in> set vals" and vl: "v < length (avalues s)" by auto
  note runs = count_no_runs [OF oth, of c]
  let ?next = "if rest = [] then Returned else Attaching t d rest"
  from step call f d' have s': "s' = (AndThen t v (DecrementAndTest d) s)\<lparr>call := ?next\<rparr>"
    by (simp add: call_step_def)
  show ?thesis
  proof (cases "IsAvailable s v")
    case False
    let ?s1 = "push v (DecrementAndTest d) s"
    have s1: "s' = ?s1\<lparr>call := ?next\<rparr>"
      using s' f vl False by (simp add: AndThen_push)
    have W: "all_waiters s' = add_mset (DecrementAndTest d) (all_waiters s)"
      by (simp add: s1 all_waiters_updates all_waiters_push [OF vl])
    have ok': "heap_ok vals s'"
      using heap_ok_push [OF ok vv False] by (simp add: s1 heap_ok_updates)
    have fld: "records s' = [d \<mapsto> r]" "invocations s' = []"
      using r i0 by (simp_all add: s1 push_fields)
    have av': "\<forall>x\<in>set vals. IsAvailable s' x \<or> x \<in> set rest
          \<or> DecrementAndTest d \<in> set (waiters (avalues s' ! x))"
      using av by (auto simp: s1 IsAvailable_updates IsAvailable_push waiters_push [OF vl])
    have oth': "\<forall>w\<in>#all_waiters s'. is_other w \<or> w = DecrementAndTest d"
      using oth by (auto simp: W)
    have cnt': "unat (counter r) = length rest + count (all_waiters s') (DecrementAndTest d)"
      using r(3) by (simp add: W)
    show ?thesis
    proof (cases "rest = []")
      case True
      have "returned_inv vals c d s'"
        unfolding returned_inv_def
        using oth' av' fld r(2) cnt' True count_no_runs [OF oth', of c] by (auto simp: W)
      then show ?thesis using ok' True by (simp add: rwr_inv_def s1)
    next
      case False
      have "attaching_inv vals c d rest s'"
        unfolding attaching_inv_def
        using oth' av' fld r(2) cnt' sub by auto
      then show ?thesis using ok' False by (simp add: rwr_inv_def s1)
    qed
  next
    case True
    note dec = unat_counter_dec [OF r(3)]
    have W: "all_waiters s' = all_waiters s"
      using s' f vl True by (simp add: AndThen_run all_waiters_updates all_waiters_run_waiter)
    have av0: "\<forall>x\<in>set vals. IsAvailable s x \<or> x \<in> set rest
          \<or> DecrementAndTest d \<in> set (waiters (avalues s ! x))"
      using av True by auto
    show ?thesis
    proof (cases "counter r = 1")
      case one: True
      with dec(2) have z: "rest = []" "count (all_waiters s) (DecrementAndTest d) = 0" by auto
      have s1: "s' = s\<lparr>invocations := invocations s @ [(t, c)], records := Map.empty, call := Returned\<rparr>"
        using s' f vl True r one z by (simp add: AndThen_run run_waiter_def)
      have "returned_inv vals c d s'"
        unfolding returned_inv_def
        using oth av0 z i0 runs
        by (auto simp: s1 all_waiters_updates IsAvailable_updates)
      then show ?thesis using ok by (simp add: rwr_inv_def s1 heap_ok_updates)
    next
      case ne: False
      let ?r = "r\<lparr>counter := counter r - 1\<rparr>"
      have s1: "s' = s\<lparr>records := [d \<mapsto> ?r], call := ?next\<rparr>"
        using s' f vl True r ne by (simp add: AndThen_run run_waiter_def)
      have cnt': "unat (counter ?r) = length rest + count (all_waiters s) (DecrementAndTest d)"
        using dec(1) by simp
      show ?thesis
      proof (cases "rest = []")
        case True
        have pos: "0 < count (all_waiters s) (DecrementAndTest d)"
          using ne dec(2) True by simp
        have "returned_inv vals c d s'"
          unfolding returned_inv_def
          using oth av0 i0 runs r(2) cnt' pos True
          by (auto simp: s1 all_waiters_updates IsAvailable_updates)
        then show ?thesis using ok True by (simp add: rwr_inv_def s1 heap_ok_updates)
      next
        case False
        have "attaching_inv vals c d rest s'"
          unfolding attaching_inv_def
          using oth av0 i0 r(2) cnt' sub False
          by (auto simp: s1 all_waiters_updates IsAvailable_updates)
        then show ?thesis using ok False by (simp add: rwr_inv_def s1 heap_ok_updates)
      qed
    qed
  qed
qed

lemma inv_call_step:
  assumes inv: "rwr_inv vals c d s" and step: "call_step s = Some s'"
  shows "rwr_inv vals c d s'"
proof (cases "call s")
  case (Scanning t rest acc c')
  show ?thesis
  proof (cases rest)
    case Nil
    with Scanning inv step show ?thesis by (auto intro: inv_dispatch)
  next
    case (Cons i rest')
    with Scanning inv_scan_step [OF inv, of t i rest' acc c'] step show ?thesis by simp
  qed
next
  case (Attaching t d' rest)
  with inv have "rest \<noteq> []" by (simp add: rwr_inv_def)
  then obtain v rest' where "rest = v # rest'" by (cases rest) auto
  with Attaching inv step show ?thesis by (auto intro: inv_attach)
next
  case Returned
  then have "call_step s = None" by (simp add: call_step_def)
  with step show ?thesis by simp
qed

lemma inv_SetState:
  assumes inv: "rwr_inv vals c d s" and step: "SetState t v st s = Some s'"
  shows "rwr_inv vals c d s'"
proof -
  let ?a = "\<lparr>state_of = st, waiters = []\<rparr> :: 'a AsyncValue"
  from step have vl: "v < length (avalues s)" and st: "st \<noteq> Unresolved"
    and un: "\<not> IsAvailable s v"
    and s': "s' = s\<lparr>avalues := (avalues s)[v := ?a],
                   flushes := flushes s @ [(t, waiters (avalues s ! v))]\<rparr>"
    by (auto simp: SetState_def split: if_splits)
  from inv have ok: "heap_ok vals s" by (simp add: rwr_inv_def)
  have W: "all_waiters s' = all_waiters s"
  proof -
    from sum_list_update_mset [OF vl, of "\<lambda>a. mset (waiters a)" ?a]
    have "sum_list (map (\<lambda>a. mset (waiters a)) ((avalues s)[v := ?a])) + mset (waiters (avalues s ! v))
            = sum_list (map (\<lambda>a. mset (waiters a)) (avalues s))"
      by simp
    then show ?thesis by (simp add: all_waiters_def s' ac_simps)
  qed
  have A: "IsAvailable s' x = (x = v \<or> IsAvailable s x)" if "x < length (avalues s)" for x
    using that vl st by (simp add: IsAvailable_def s' nth_list_update)
  have Wt: "waiters (avalues s' ! x) = (if x = v then [] else waiters (avalues s ! x))"
    if "x < length (avalues s)" for x
    using that vl by (simp add: s' nth_list_update)
  have fld: "records s' = records s" "invocations s' = invocations s" "failure s' = failure s"
    "next_record s' = next_record s" "call s' = call s" "length (avalues s') = length (avalues s)"
    by (simp_all add: s')
  from ok have rng: "\<forall>x\<in>set vals. x < length (avalues s)" by (simp add: heap_ok_def)
  have ok': "heap_ok vals s'"
  proof -
    have 3: "\<forall>a\<in>set (avalues s'). state_of a \<noteq> Unresolved \<longrightarrow> waiters a = []"
    proof
      fix a assume "a \<in> set (avalues s')"
      then have "a = ?a \<or> a \<in> set (avalues s)"
        using set_update_subset_insert [of "avalues s" v ?a] by (auto simp: s')
      then show "state_of a \<noteq> Unresolved \<longrightarrow> waiters a = []"
        using ok by (auto simp: heap_ok_def)
    qed
    have 4: "\<forall>x<length (avalues s'). x \<notin> set vals \<longrightarrow>
               (\<forall>w\<in>set (waiters (avalues s' ! x)). is_other w)"
      using ok by (auto simp: heap_ok_def fld Wt)
    from ok 3 4 show ?thesis by (simp add: heap_ok_def fld)
  qed
  show ?thesis
  proof (cases "call s")
    case (Scanning t' rest acc c')
    with inv have c': "c' = c" and sc: "scanning_inv vals c d rest acc s"
      by (auto simp: rwr_inv_def)
    from sc obtain dn where dn: "vals = dn @ rest" "length acc \<le> length dn"
      "\<forall>x\<in>set dn. x \<in> set acc \<or> IsAvailable s x"
      by (auto simp: scanning_inv_def)
    have "\<forall>x\<in>set dn. x \<in> set acc \<or> IsAvailable s' x"
      using dn rng A by auto
    with dn have "\<exists>dn. vals = dn @ rest \<and> length acc \<le> length dn \<and>
         (\<forall>x\<in>set dn. x \<in> set acc \<or> IsAvailable s' x)"
      by blast
    then have "scanning_inv vals c d rest acc s'"
      using sc by (simp add: scanning_inv_def W fld)
    then show ?thesis using ok' Scanning c' by (simp add: rwr_inv_def fld)
  next
    case (Attaching t' d' rest)
    with inv have d': "d' = d" "rest \<noteq> []" and at: "attaching_inv vals c d rest s"
      by (auto simp: rwr_inv_def)
    have "\<forall>x\<in>set vals. IsAvailable s' x \<or> x \<in> set rest
          \<or> DecrementAndTest d \<in> set (waiters (avalues s' ! x))"
      using at rng A Wt by (auto simp: attaching_inv_def)
    then have "attaching_inv vals c d rest s'"
      using at by (simp add: attaching_inv_def W fld)
    then show ?thesis using ok' Attaching d' by (simp add: rwr_inv_def fld)
  next
    case Returned
    with inv have rt: "returned_inv vals c d s" by (simp add: rwr_inv_def)
    have "\<forall>x\<in>set vals. IsAvailable s' x \<or> RunCallee c \<in> set (waiters (avalues s' ! x))
          \<or> DecrementAndTest d \<in> set (waiters (avalues s' ! x))"
      using rt rng A Wt by (auto simp: returned_inv_def)
    then have "returned_inv vals c d s'"
      using rt by (simp add: returned_inv_def W fld)
    then show ?thesis using ok' Returned by (simp add: rwr_inv_def fld)
  qed
qed

lemma inv_flush_done:
  assumes inv: "rwr_inv vals c d s" and i: "i < length (flushes s)"
    and fl: "flushes s ! i = (t, [])"
  shows "rwr_inv vals c d (s\<lparr>flushes := remove_nth i (flushes s)\<rparr>)"
proof -
  let ?s' = "s\<lparr>flushes := remove_nth i (flushes s)\<rparr>"
  have W: "all_waiters ?s' = all_waiters s"
    using sum_list_remove_mset [OF i, of "\<lambda>f. mset (snd f)"] fl
    by (simp add: all_waiters_def)
  show ?thesis
    using inv
    by (cases "call s")
       (simp_all add: rwr_inv_def heap_ok_updates scanning_inv_def attaching_inv_def
          returned_inv_def W IsAvailable_updates)
qed

lemma all_waiters_pop:
  assumes i: "i < length (flushes s)" and fl: "flushes s ! i = (t, w # ws)"
    and s': "avalues s' = avalues s" "flushes s' = (flushes s)[i := (t, ws)]"
  shows "all_waiters s = add_mset w (all_waiters s')"
proof -
  from sum_list_update_mset [OF i, of "\<lambda>f. mset (snd f)" "(t, ws)"] fl
  have "sum_list (map (\<lambda>f. mset (snd f)) ((flushes s)[i := (t, ws)])) + add_mset w (mset ws)
          = sum_list (map (\<lambda>f. mset (snd f)) (flushes s)) + mset ws"
    by simp
  then have "sum_list (map (\<lambda>f. mset (snd f)) (flushes s))
          = add_mset w (sum_list (map (\<lambda>f. mset (snd f)) ((flushes s)[i := (t, ws)])))"
    by simp
  then show ?thesis by (simp add: all_waiters_def s')
qed

lemma inv_flush_other:
  assumes inv: "rwr_inv vals c d s" and i: "i < length (flushes s)"
    and fl: "flushes s ! i = (t, OtherWaiter k # ws)"
  shows "rwr_inv vals c d (s\<lparr>flushes := (flushes s)[i := (t, ws)]\<rparr>)"
proof -
  let ?s' = "s\<lparr>flushes := (flushes s)[i := (t, ws)]\<rparr>"
  have W: "all_waiters s = add_mset (OtherWaiter k) (all_waiters ?s')"
    using i fl by (rule all_waiters_pop) simp_all
  show ?thesis
    using inv
    by (cases "call s")
       (auto simp: rwr_inv_def heap_ok_updates scanning_inv_def attaching_inv_def
          returned_inv_def W IsAvailable_updates)
qed

lemma inv_flush_callee:
  assumes inv: "rwr_inv vals c d s" and i: "i < length (flushes s)"
    and fl: "flushes s ! i = (t, RunCallee c' # ws)"
  shows "rwr_inv vals c d (s\<lparr>invocations := invocations s @ [(t, c')],
            flushes := (flushes s)[i := (t, ws)]\<rparr>)"
proof -
  let ?s' = "s\<lparr>invocations := invocations s @ [(t, c')], flushes := (flushes s)[i := (t, ws)]\<rparr>"
  have W: "all_waiters s = add_mset (RunCallee c') (all_waiters ?s')"
    using i fl by (rule all_waiters_pop) simp_all
  then have mem: "RunCallee c' \<in># all_waiters s" by simp
  from inv have ok: "heap_ok vals s" by (simp add: rwr_inv_def)
  show ?thesis
  proof (cases "call s")
    case (Scanning t' rest acc c'')
    with inv mem have False by (auto simp: rwr_inv_def scanning_inv_def)
    then show ?thesis ..
  next
    case (Attaching t' d' rest)
    with inv mem have False by (auto simp: rwr_inv_def attaching_inv_def)
    then show ?thesis ..
  next
    case Returned
    with inv have rt: "returned_inv vals c d s" by (simp add: rwr_inv_def)
    from rt mem have c': "c' = c" by (auto simp: returned_inv_def)
    from mem c' have pos: "count (all_waiters s) (RunCallee c) \<noteq> 0"
      by (simp add: count_eq_zero_iff)
    from rt pos have fst: "records s = Map.empty"
      "count (all_waiters s) (DecrementAndTest d) = 0"
      "length (invocations s) + count (all_waiters s) (RunCallee c) = 1"
      by (auto simp: returned_inv_def)
    from fst(3) W c' have z: "invocations s = []" "count (all_waiters ?s') (RunCallee c) = 0"
      by auto
    have "returned_inv vals c d ?s'"
      unfolding returned_inv_def
      using rt fst z c' W
      by (auto simp: returned_inv_def IsAvailable_updates)
    then show ?thesis using ok Returned by (simp add: rwr_inv_def heap_ok_updates)
  qed
qed

lemma inv_flush_decrement:
  assumes inv: "rwr_inv vals c d s" and i: "i < length (flushes s)"
    and fl: "flushes s ! i = (t, DecrementAndTest d' # ws)"
  shows "rwr_inv vals c d ((run_waiter t (DecrementAndTest d') s)
            \<lparr>flushes := (flushes s)[i := (t, ws)]\<rparr>)"
proof -
  let ?F = "(flushes s)[i := (t, ws)]"
  have "all_waiters s = add_mset (DecrementAndTest d') (all_waiters (s\<lparr>flushes := ?F\<rparr>))"
    using i fl by (rule all_waiters_pop) simp_all
  then have W0: "pool (avalues s) (flushes s) = add_mset (DecrementAndTest d') (pool (avalues s) ?F)"
    by (simp add: all_waiters_pool)
  then have mem: "DecrementAndTest d' \<in># all_waiters s" by (simp add: all_waiters_pool)
  from inv have ok: "heap_ok vals s" by (simp add: rwr_inv_def)
  have d': "d' = d"
    using inv mem
    by (cases "call s") (auto simp: rwr_inv_def scanning_inv_def attaching_inv_def returned_inv_def)
  have W: "pool (avalues s) (flushes s) = add_mset (DecrementAndTest d) (pool (avalues s) ?F)"
    using W0 d' by simp
  show ?thesis
  proof (cases "call s")
    case (Scanning t' rest acc c'')
    with inv mem have False by (auto simp: rwr_inv_def scanning_inv_def)
    then show ?thesis ..
  next
    case (Attaching t' d'' rest)
    with inv have ne: "rest \<noteq> []" and at: "attaching_inv vals c d rest s" and d'': "d'' = d"
      by (auto simp: rwr_inv_def)
    from at obtain r where r: "records s = [d \<mapsto> r]" "callee r = c"
      "unat (counter r) = length rest + count (pool (avalues s) (flushes s)) (DecrementAndTest d)"
      by (auto simp: attaching_inv_def all_waiters_pool)
    from ne have l1: "Suc 0 \<le> length rest" by (cases rest) simp_all
    from r(3) have u: "unat (counter r) = Suc (length rest + count (pool (avalues s) ?F) (DecrementAndTest d))"
      by (simp add: W)
    note dec = unat_counter_dec [OF u]
    from l1 dec(2) have n1: "counter r \<noteq> 1" by auto
    let ?t = "s\<lparr>records := [d \<mapsto> r\<lparr>counter := counter r - 1\<rparr>], flushes := ?F\<rparr>"
    have s': "(run_waiter t (DecrementAndTest d') s)\<lparr>flushes := ?F\<rparr> = ?t"
      using r n1 d' by (simp add: run_waiter_def)
    have "attaching_inv vals c d rest ?t"
      using at r(1,2) dec(1)
      by (auto simp: attaching_inv_def all_waiters_pool W IsAvailable_def)
    then show ?thesis
      using ok Attaching ne d'' by (simp add: s' rwr_inv_def heap_ok_updates)
  next
    case Returned
    with inv have rt: "returned_inv vals c d s" by (simp add: rwr_inv_def)
    have pos: "count (pool (avalues s) (flushes s)) (DecrementAndTest d) \<noteq> 0"
      by (simp add: W)
    from rt have "(records s = Map.empty \<and> count (pool (avalues s) (flushes s)) (DecrementAndTest d) = 0 \<and>
        length (invocations s) + count (pool (avalues s) (flushes s)) (RunCallee c) = 1 \<and>
        (\<forall>e\<in>set (invocations s). snd e = c))
       \<or> (\<exists>r. records s = [d \<mapsto> r] \<and> callee r = c \<and> invocations s = [] \<and>
             count (pool (avalues s) (flushes s)) (RunCallee c) = 0 \<and>
             unat (counter r) = count (pool (avalues s) (flushes s)) (DecrementAndTest d) \<and>
             0 < count (pool (avalues s) (flushes s)) (DecrementAndTest d))"
      unfolding returned_inv_def all_waiters_pool by blast
    with pos obtain r where r: "records s = [d \<mapsto> r]" "callee r = c" "invocations s = []"
      "count (pool (avalues s) (flushes s)) (RunCallee c) = 0"
      "unat (counter r) = count (pool (avalues s) (flushes s)) (DecrementAndTest d)"
      by (elim disjE conjE exE) auto
    from r(5) have u: "unat (counter r) = Suc (count (pool (avalues s) ?F) (DecrementAndTest d))"
      by (simp add: W)
    from r(4) have runs: "count (pool (avalues s) ?F) (RunCallee c) = 0"
      by (simp add: W)
    note dec = unat_counter_dec [OF u]
    from rt have base: "\<forall>w\<in>#pool (avalues s) ?F. is_other w \<or> w = RunCallee c \<or> w = DecrementAndTest d"
      "\<forall>v\<in>set vals. IsAvailable s v \<or> RunCallee c \<in> set (waiters (avalues s ! v))
          \<or> DecrementAndTest d \<in> set (waiters (avalues s ! v))"
      by (auto simp: returned_inv_def all_waiters_pool W)
    show ?thesis
    proof (cases "counter r = 1")
      case True
      let ?t = "s\<lparr>invocations := invocations s @ [(t, c)], records := Map.empty, flushes := ?F\<rparr>"
      have s': "(run_waiter t (DecrementAndTest d') s)\<lparr>flushes := ?F\<rparr> = ?t"
        using r True d' by (simp add: run_waiter_def)
      have z: "count (pool (avalues s) ?F) (DecrementAndTest d) = 0"
        using dec(2) True by simp
      have "returned_inv vals c d ?t"
        using base r(3) z runs
        by (auto simp: returned_inv_def all_waiters_pool IsAvailable_def)
      then show ?thesis
        using ok Returned by (simp add: s' rwr_inv_def heap_ok_updates)
    next
      case False
      let ?t = "s\<lparr>records := [d \<mapsto> r\<lparr>counter := counter r - 1\<rparr>], flushes := ?F\<rparr>"
      have s': "(run_waiter t (DecrementAndTest d') s)\<lparr>flushes := ?F\<rparr> = ?t"
        using r False d' by (simp add: run_waiter_def)
      have pos': "0 < count (pool (avalues s) ?F) (DecrementAndTest d)"
        using dec(2) False by simp
      have "returned_inv vals c d ?t"
        using base r(2,3) dec(1) pos' runs
        by (auto simp: returned_inv_def all_waiters_pool IsAvailable_def)
      then show ?thesis
        using ok Returned by (simp add: s' rwr_inv_def heap_ok_updates)
    qed
  qed
qed

lemma inv_flush_step:
  assumes inv: "rwr_inv vals c d s" and step: "flush_step i s = Some s'"
  shows "rwr_inv vals c d s'"
proof -
  from step have i: "i < length (flushes s)" and f: "failure s = None"
    by (auto simp: flush_step_def split: if_splits)
  obtain t ws where fl: "flushes s ! i = (t, ws)" by (cases "flushes s ! i") auto
  show ?thesis
  proof (cases ws)
    case Nil
    with step i f fl have "s' = s\<lparr>flushes := remove_nth i (flushes s)\<rparr>"
      by (simp add: flush_step_def)
    with inv_flush_done [OF inv i] fl Nil show ?thesis by simp
  next
    case (Cons w ws')
    with step i f fl have s': "s' = (run_waiter t w s)\<lparr>flushes := (flushes s)[i := (t, ws')]\<rparr>"
      by (simp add: flush_step_def)
    show ?thesis
    proof (cases w)
      case (RunCallee c')
      with inv_flush_callee [OF inv i, of t c' ws'] fl Cons s' show ?thesis
        by (simp add: run_waiter_def)
    next
      case (DecrementAndTest d')
      with inv_flush_decrement [OF inv i, of t d' ws'] fl Cons s' show ?thesis
        by simp
    next
      case (OtherWaiter k)
      with inv_flush_other [OF inv i, of t k ws'] fl Cons s' show ?thesis
        by (simp add: run_waiter_def)
    qed
  qed
qed

lemma rwr_inv_step:
  assumes "rwr_inv vals c d s" "rwr_step a s = Some s'"
  shows "rwr_inv vals c d s'"
  using assms
  by (cases a) (auto intro: inv_call_step inv_flush_step inv_SetState)

lemma rwr_inv_run:
  assumes "rwr_run as s = Some s'" "rwr_inv vals c d s"
  shows "rwr_inv vals c d s'"
  using assms
proof (induction as arbitrary: s)
  case Nil
  then show ?case by simp
next
  case (Cons a as)
  from Cons.prems(1) obtain s1 where a: "rwr_step a s = Some s1" and r: "rwr_run as s1 = Some s'"
    by (auto split: option.splits)
  from rwr_inv_step [OF Cons.prems(2) a] have "rwr_inv vals c d s1" .
  with r show ?case by (rule Cons.IH)
qed

lemma rwr_inv_start:
  assumes rng: "\<forall>v\<in>set vals. v < length vs" and len: "length vals < 2 ^ 64"
    and wf: "\<forall>a\<in>set vs. (state_of a \<noteq> Unresolved \<longrightarrow> waiters a = [])
               \<and> (\<forall>w\<in>set (waiters a). is_other w)"
  shows "rwr_inv vals c 0 (start t vals c vs)"
proof -
  have W: "\<forall>w\<in>#sum_list (map (\<lambda>a. mset (waiters a)) xs). is_other w"
    if "\<forall>a\<in>set xs. \<forall>w\<in>set (waiters a). is_other w" for xs :: "'a AsyncValue list"
    using that by (induction xs) auto
  have ok: "heap_ok vals (start t vals c vs)"
    using rng len wf by (auto simp: heap_ok_def start_def)
  have "\<exists>dn. vals = dn @ vals \<and> length ([] :: nat list) \<le> length dn
          \<and> (\<forall>v\<in>set dn. v \<in> set ([] :: nat list) \<or> IsAvailable (start t vals c vs) v)"
    by (rule exI [of _ "[]"]) simp
  then have "scanning_inv vals c 0 vals [] (start t vals c vs)"
    using W [of vs] wf by (simp add: scanning_inv_def all_waiters_def) (simp add: start_def)
  with ok show ?thesis by (simp add: rwr_inv_def) (simp add: start_def)
qed

lemma call_step_enabled:
  assumes "failure s = None" "call s \<noteq> Returned"
  shows "\<exists>s'. call_step s = Some s'"
proof (cases "call s")
  case (Scanning t rest acc c')
  with assms show ?thesis
    by (cases rest) (auto simp: call_step_def Let_def)
next
  case (Attaching t d rest)
  with assms show ?thesis
    by (cases rest) (auto simp: call_step_def)
next
  case Returned
  with assms show ?thesis by simp
qed

lemma flush_step_enabled:
  assumes "failure s = None" "i < length (flushes s)"
  shows "\<exists>s'. flush_step i s = Some s'"
proof -
  obtain t ws where "flushes s ! i = (t, ws)" by (cases "flushes s ! i") auto
  with assms show ?thesis
    by (cases ws) (auto simp: flush_step_def)
qed

lemma rwr_progress:
  assumes "failure s = None" "\<not> quiescent s"
  shows "\<exists>a s'. rwr_step a s = Some s'"
proof (cases "call s = Returned")
  case False
  from call_step_enabled [OF assms(1) False] obtain s' where "rwr_step CallStep s = Some s'"
    by auto
  then show ?thesis by blast
next
  case True
  with assms have "0 < length (flushes s)" by (simp add: quiescent_def)
  from flush_step_enabled [OF assms(1) this] obtain s' where "rwr_step (FlushStep 0) s = Some s'"
    by auto
  then show ?thesis by blast
qed

lemma invoked_facts:
  assumes inv: "rwr_inv vals c d s"
  shows "failure s = None"
    and "length (invocations s) \<le> 1"
    and "\<forall>e\<in>set (invocations s). snd e = c"
    and "invocations s \<noteq> [] \<longrightarrow> (\<forall>v\<in>set vals. IsAvailable s v)"
    and "quiescent s \<and> (\<forall>v\<in>set vals. IsAvailable s v) \<longrightarrow> length (invocations s) = 1"
proof -
  from inv have ok: "heap_ok vals s" by (simp add: rwr_inv_def)
  then show "failure s = None" by (simp add: heap_ok_def)
  from ok have rng: "\<forall>v\<in>set vals. v < length (avalues s)" by (simp add: heap_ok_def)
  show "length (invocations s) \<le> 1"
    using inv
    by (cases "call s") (auto simp: rwr_inv_def scanning_inv_def attaching_inv_def returned_inv_def)
  show "\<forall>e\<in>set (invocations s). snd e = c"
    using inv
    by (cases "call s") (auto simp: rwr_inv_def scanning_inv_def attaching_inv_def returned_inv_def)
  show "invocations s \<noteq> [] \<longrightarrow> (\<forall>v\<in>set vals. IsAvailable s v)"
  proof (intro impI ballI)
    fix v assume ne: "invocations s \<noteq> []" and v: "v \<in> set vals"
    from ne inv have rt: "returned_inv vals c d s"
      by (cases "call s") (auto simp: rwr_inv_def scanning_inv_def attaching_inv_def)
    from ne have l: "Suc 0 \<le> length (invocations s)" by (cases "invocations s") simp_all
    from rt ne l have z: "count (all_waiters s) (DecrementAndTest d) = 0"
      "count (all_waiters s) (RunCallee c) = 0"
      by (auto simp: returned_inv_def)
    from v rng have vl: "v < length (avalues s)" by simp
    have "RunCallee c \<notin> set (waiters (avalues s ! v))"
      using waiter_in_all [OF vl, of "RunCallee c"] z(2) by (auto simp: count_eq_zero_iff)
    moreover have "DecrementAndTest d \<notin> set (waiters (avalues s ! v))"
      using waiter_in_all [OF vl, of "DecrementAndTest d"] z(1) by (auto simp: count_eq_zero_iff)
    ultimately show "IsAvailable s v"
      using rt v by (auto simp: returned_inv_def)
  qed
  show "quiescent s \<and> (\<forall>v\<in>set vals. IsAvailable s v) \<longrightarrow> length (invocations s) = 1"
  proof
    assume q: "quiescent s \<and> (\<forall>v\<in>set vals. IsAvailable s v)"
    then have rt: "returned_inv vals c d s" and fl: "flushes s = []"
      using inv by (auto simp: quiescent_def rwr_inv_def)
    have emp: "waiters a = [] \<or> (\<forall>w\<in>set (waiters a). is_other w)" if "a \<in> set (avalues s)" for a
    proof -
      from that obtain v where v: "v < length (avalues s)" "a = avalues s ! v"
        by (auto simp: in_set_conv_nth)
      show ?thesis
      proof (cases "v \<in> set vals")
        case True
        with q have "IsAvailable s v" by simp
        with ok that v show ?thesis by (auto simp: heap_ok_def IsAvailable_def)
      next
        case False
        with ok v show ?thesis by (auto simp: heap_ok_def)
      qed
    qed
    have "\<forall>w\<in>#sum_list (map (\<lambda>a. mset (waiters a)) xs). is_other w"
      if "\<forall>a\<in>set xs. waiters a = [] \<or> (\<forall>w\<in>set (waiters a). is_other w)"
      for xs :: "'a AsyncValue list"
      using that by (induction xs) auto
    from this [of "avalues s"] emp have "\<forall>w\<in>#all_waiters s. is_other w"
      by (simp add: all_waiters_def fl)
    note cnt = count_others [OF this]
    from rt cnt(2) [of d] cnt(1) [of c] show "length (invocations s) = 1"
      by (auto simp: returned_inv_def)
  qed
qed

lemma stable_step:
  assumes "rwr_step a s = Some s'"
  shows "length (avalues s') = length (avalues s)
       \<and> (\<forall>v<length (avalues s). state_of (avalues s ! v) \<noteq> Unresolved \<longrightarrow>
             state_of (avalues s' ! v) = state_of (avalues s ! v))"
proof (cases a)
  case CallStep
  have A: "length (avalues (AndThen t v w s)) = length (avalues s)
       \<and> (\<forall>x<length (avalues s). state_of (avalues (AndThen t v w s) ! x) = state_of (avalues s ! x))"
    for t v w
    by (auto simp: AndThen_def avalues_run_waiter nth_list_update)
  from assms CallStep have "call_step s = Some s'" by simp
  then show ?thesis
    using A
    by (auto simp: call_step_def Let_def split: if_splits activation.splits list.splits)
next
  case (FlushStep i)
  with assms show ?thesis
    by (auto simp: flush_step_def avalues_run_waiter split: if_splits prod.splits list.splits)
next
  case (Resolve t v st)
  with assms show ?thesis
    by (auto simp: SetState_def IsAvailable_def nth_list_update split: if_splits)
qed

lemma stable_run:
  assumes "rwr_run as s = Some s'"
  shows "length (avalues s') = length (avalues s)
       \<and> (\<forall>v<length (avalues s). state_of (avalues s ! v) \<noteq> Unresolved \<longrightarrow>
             state_of (avalues s' ! v) = state_of (avalues s ! v))"
  using assms
proof (induction as arbitrary: s)
  case Nil
  then show ?case by simp
next
  case (Cons a as)
  from Cons.prems obtain s1 where a: "rwr_step a s = Some s1" and r: "rwr_run as s1 = Some s'"
    by (auto split: option.splits)
  from stable_step [OF a] Cons.IH [OF r] show ?case by auto
qed

lemma nothing_enabled:
  assumes inv: "rwr_inv vals c d s" and none: "\<forall>a. rwr_step a s = None"
  shows "quiescent s \<and> (\<forall>v\<in>set vals. IsAvailable s v)"
proof -
  from inv have ok: "heap_ok vals s" by (simp add: rwr_inv_def)
  then have f: "failure s = None" and rng: "\<forall>v\<in>set vals. v < length (avalues s)"
    by (auto simp: heap_ok_def)
  have q: "quiescent s"
    using rwr_progress [OF f] none by (cases "quiescent s") auto
  have "IsAvailable s v" if "v \<in> set vals" for v
  proof (rule ccontr)
    assume "\<not> IsAvailable s v"
    moreover from rng that have "v < length (avalues s)" by blast
    ultimately have "rwr_step (Resolve 0 v Concrete) s \<noteq> None"
      using f by (simp add: SetState_def)
    moreover from none have "rwr_step (Resolve 0 v Concrete) s = None" by (rule spec)
    ultimately show False by simp
  qed
  with q show ?thesis by blast
qed

lemma scan_filter:
  assumes "\<forall>v\<in>set vals. v < length (avalues h)"
  shows "scan h vals acc = Inr (acc @ filter (\<lambda>v. \<not> IsAvailable h v) vals)"
  using assms by (induction vals arbitrary: acc) auto

lemma fold_AndThen_push:
  assumes "failure h = None"
    and "\<forall>u\<in>set us. u < length (avalues h) \<and> \<not> IsAvailable h u"
  shows "records (fold (\<lambda>val. AndThen t val w) us h) = records h
       \<and> invocations (fold (\<lambda>val. AndThen t val w) us h) = invocations h
       \<and> failure (fold (\<lambda>val. AndThen t val w) us h) = None
       \<and> next_record (fold (\<lambda>val. AndThen t val w) us h) = next_record h
       \<and> length (avalues (fold (\<lambda>val. AndThen t val w) us h)) = length (avalues h)
       \<and> (\<forall>v<length (avalues h).
             state_of (avalues (fold (\<lambda>val. AndThen t val w) us h) ! v) = state_of (avalues h ! v)
           \<and> waiters (avalues (fold (\<lambda>val. AndThen t val w) us h) ! v)
               = replicate (count_list us v) w @ waiters (avalues h ! v))"
  using assms
proof (induction us arbitrary: h)
  case Nil
  then show ?case by simp
next
  case (Cons u us)
  let ?h1 = "h\<lparr>avalues := (avalues h)[u := (avalues h ! u)\<lparr>waiters := w # waiters (avalues h ! u)\<rparr>]\<rparr>"
  from Cons.prems have u: "u < length (avalues h)" "\<not> IsAvailable h u" by auto
  with Cons.prems(1) have a: "AndThen t u w h = ?h1" by (simp add: AndThen_def)
  have f1: "failure ?h1 = None" using Cons.prems(1) by simp
  have st: "state_of (avalues ?h1 ! v) = state_of (avalues h ! v)" if "v < length (avalues h)" for v
    using that u by (cases "v = u") simp_all
  have wt: "waiters (avalues ?h1 ! v) = (if v = u then w # waiters (avalues h ! v) else waiters (avalues h ! v))"
    if "v < length (avalues h)" for v
    using that u by (cases "v = u") simp_all
  have p1: "\<forall>x\<in>set us. x < length (avalues ?h1) \<and> \<not> IsAvailable ?h1 x"
    using Cons.prems(2) st by (auto simp: IsAvailable_def)
  note IH = Cons.IH [OF f1 p1]
  have l1: "length (avalues ?h1) = length (avalues h)" by simp
  show ?case
    unfolding fold_simps a
    using IH st wt
    by (auto simp: l1 replicate_app_Cons_same)
qed

text \<open>
  The activation run without any other thread in between is the function
  \<open>RunWhenReady\<close>; then the steps of every schedule are bounded, and every
  reachable state can be run to a state in which nothing can move.
\<close>

lemma rwr_run_append:
  "rwr_run (as @ bs) s = (case rwr_run as s of None \<Rightarrow> None | Some s' \<Rightarrow> rwr_run bs s')"
  by (induction as arbitrary: s) (auto split: option.splits)

lemma AndThen_call:
  "AndThen t v w (s\<lparr>call := x\<rparr>) = (AndThen t v w s)\<lparr>call := x\<rparr>"
  by (simp add: AndThen_def run_waiter_def IsAvailable_def split: waiter.splits option.splits)

lemma fold_AndThen_call:
  "fold (\<lambda>val. AndThen t val w) us (s\<lparr>call := x\<rparr>) = (fold (\<lambda>val. AndThen t val w) us s)\<lparr>call := x\<rparr>"
  by (induction us arbitrary: s) (simp_all add: AndThen_call)

lemma scan_run:
  assumes "\<forall>v\<in>set vals. v < length (avalues s)" and "failure s = None"
    and "call s = Scanning t vals acc c"
  shows "rwr_run (replicate (length vals) CallStep) s
           = Some (s\<lparr>call := Scanning t [] (acc @ filter (\<lambda>v. \<not> IsAvailable s v) vals) c\<rparr>)"
  using assms
proof (induction vals arbitrary: acc s)
  case Nil
  then show ?case by simp
next
  case (Cons i vals)
  let ?acc = "if IsAvailable s i then acc else acc @ [i]"
  let ?s1 = "s\<lparr>call := Scanning t vals ?acc c\<rparr>"
  from Cons.prems have st: "call_step s = Some ?s1" by (simp add: call_step_def)
  have av: "IsAvailable ?s1 = IsAvailable s" by (rule ext) (simp add: IsAvailable_def)
  from Cons.prems have "rwr_run (replicate (length vals) CallStep) ?s1
           = Some (?s1\<lparr>call := Scanning t [] (?acc @ filter (\<lambda>v. \<not> IsAvailable ?s1 v) vals) c\<rparr>)"
    by (intro Cons.IH) simp_all
  then show ?case using st by (simp add: av)
qed

lemma attach_run:
  assumes "failure s = None" and "us \<noteq> []"
    and "\<forall>u\<in>set us. u < length (avalues s) \<and> \<not> IsAvailable s u"
    and "call s = Attaching t data us"
  shows "rwr_run (replicate (length us) CallStep) s
           = Some ((fold (\<lambda>val. AndThen t val (DecrementAndTest data)) us s)\<lparr>call := Returned\<rparr>)"
  using assms
proof (induction us arbitrary: s)
  case Nil
  then show ?case by simp
next
  case (Cons u us)
  let ?w = "DecrementAndTest data :: 'a waiter"
  show ?case
  proof (cases "us = []")
    case True
    with Cons.prems show ?thesis by (simp add: call_step_def)
  next
    case False
    let ?h = "AndThen t u ?w s"
    let ?s1 = "?h\<lparr>call := Attaching t data us\<rparr>"
    from Cons.prems False have st: "call_step s = Some ?s1" by (simp add: call_step_def)
    from Cons.prems have u: "u < length (avalues s)" "\<not> IsAvailable s u" by simp_all
    with Cons.prems(1) have h: "?h = s\<lparr>avalues := (avalues s)[u := (avalues s ! u)\<lparr>waiters := ?w # waiters (avalues s ! u)\<rparr>]\<rparr>"
      by (simp add: AndThen_def)
    have f1: "failure ?s1 = None" using Cons.prems(1) by (simp add: h)
    have p1: "\<forall>x\<in>set us. x < length (avalues ?s1) \<and> \<not> IsAvailable ?s1 x"
    proof
      fix x assume "x \<in> set us"
      with Cons.prems(3) have x: "x < length (avalues s)" "\<not> IsAvailable s x" by simp_all
      then show "x < length (avalues ?s1) \<and> \<not> IsAvailable ?s1 x"
        by (cases "x = u") (simp_all add: h IsAvailable_def)
    qed
    have c1: "call ?s1 = Attaching t data us" by simp
    from Cons.IH [OF f1 False p1 c1]
    have "rwr_run (replicate (length us) CallStep) ?s1
           = Some ((fold (\<lambda>val. AndThen t val ?w) us ?h)\<lparr>call := Returned\<rparr>)"
      by (simp add: fold_AndThen_call)
    with st show ?thesis by simp
  qed
qed

lemma RunWhenReady_uninterrupted:
  assumes r: "\<forall>v\<in>set vals. v < length (avalues s)" and f: "failure s = None"
    and c: "call s = Scanning t vals [] callee'"
    and k: "k = length (filter (\<lambda>v. \<not> IsAvailable s v) vals)"
  shows "rwr_run (replicate (length vals + 1 + (if 2 \<le> k then k else 0)) CallStep) s
           = Some ((RunWhenReady t vals callee' s)\<lparr>call := Returned\<rparr>)"
proof -
  let ?us = "filter (\<lambda>v. \<not> IsAvailable s v) vals"
  let ?s1 = "s\<lparr>call := Scanning t [] ?us callee'\<rparr>"
  from scan_run [OF r f c] have 1: "rwr_run (replicate (length vals) CallStep) s = Some ?s1"
    by simp
  from scan_filter [OF r] have sc: "scan s vals [] = Inr ?us" by simp
  have f1: "failure ?s1 = None" using f by simp
  have split: "replicate (length vals + 1 + n) CallStep
                 = replicate (length vals) CallStep @ CallStep # replicate n CallStep" for n
    by (simp add: replicate_add replicate_append_same)
  have run: "rwr_run (replicate (length vals + 1 + n) CallStep) s
               = (case call_step ?s1 of None \<Rightarrow> None
                  | Some s' \<Rightarrow> rwr_run (replicate n CallStep) s')" for n
    by (simp only: split rwr_run_append 1 option.case rwr_run.simps rwr_step.simps)
  consider (none) "?us = []" | (one) "length ?us = 1" | (many) "2 \<le> length ?us"
    by (cases ?us) (auto simp add: Suc_le_eq numeral_2_eq_2)
  then show ?thesis
  proof cases
    case none
    then have n: "(if 2 \<le> k then k else 0) = 0" using k by simp
    from none f have "call_step ?s1
        = Some (s\<lparr>invocations := invocations s @ [(t, callee')], call := Returned\<rparr>)"
      by (simp add: call_step_def)
    moreover from none sc have "RunWhenReady t vals callee' s
        = s\<lparr>invocations := invocations s @ [(t, callee')]\<rparr>"
      by (simp add: RunWhenReady_def)
    ultimately show ?thesis unfolding n run by simp
  next
    case one
    then have n: "(if 2 \<le> k then k else 0) = 0" using k by simp
    from one have ne: "?us \<noteq> []" by auto
    from one ne f have "call_step ?s1
        = Some ((AndThen t (?us ! 0) (RunCallee callee') s)\<lparr>call := Returned\<rparr>)"
      by (simp add: call_step_def AndThen_call)
    moreover from one ne sc have "RunWhenReady t vals callee' s
        = AndThen t (?us ! 0) (RunCallee callee') s"
      by (simp add: RunWhenReady_def)
    ultimately show ?thesis unfolding n run by simp
  next
    case many
    then have k2: "2 \<le> k" and ne: "?us \<noteq> []" and n1: "length ?us \<noteq> 1" using k by auto
    let ?data = "next_record s"
    let ?h1 = "s\<lparr>records := (records s)(?data \<mapsto>
                          \<lparr>counter = of_nat (length ?us), callee = callee'\<rparr>),
                 next_record := Suc ?data\<rparr>"
    let ?s2 = "?h1\<lparr>call := Attaching t ?data ?us\<rparr>"
    from ne n1 f have 2: "call_step ?s1 = Some ?s2"
      by (simp add: call_step_def Let_def)
    have f2: "failure ?s2 = None" using f by simp
    have p2: "\<forall>u\<in>set ?us. u < length (avalues ?s2) \<and> \<not> IsAvailable ?s2 u"
      using r by (simp add: IsAvailable_def)
    have c2: "call ?s2 = Attaching t ?data ?us" by simp
    from attach_run [OF f2 ne p2 c2]
    have 3: "rwr_run (replicate (length ?us) CallStep) ?s2
           = Some ((fold (\<lambda>val. AndThen t val (DecrementAndTest ?data)) ?us ?h1)\<lparr>call := Returned\<rparr>)"
      by (simp add: fold_AndThen_call)
    from ne n1 sc have "RunWhenReady t vals callee' s
        = fold (\<lambda>val. AndThen t val (DecrementAndTest ?data)) ?us ?h1"
      by (simp add: RunWhenReady_def Let_def)
    moreover from k k2 have "(if 2 \<le> k then k else 0) = length ?us" by simp
    ultimately show ?thesis unfolding run using 2 3 by simp
  qed
qed

lemma sum_list_update_nat:
  fixes f :: "'a \<Rightarrow> nat"
  assumes "v < length xs"
  shows "sum_list (map f (xs[v := y])) + f (xs ! v) = sum_list (map f xs) + f y"
proof -
  from nth_split3 [OF assms] obtain pre post where
    "xs = pre @ xs ! v # post" "xs[v := y] = pre @ y # post" by metis
  then have "sum_list (map f xs) = sum_list (map f pre) + f (xs ! v) + sum_list (map f post)"
    and "sum_list (map f (xs[v := y])) = sum_list (map f pre) + f y + sum_list (map f post)"
    by (metis append_Cons append_Nil list.simps(9) map_append sum_list.Cons sum_list.append add.assoc)+
  then show ?thesis by simp
qed

lemma sum_list_remove_nat:
  fixes f :: "'a \<Rightarrow> nat"
  assumes "v < length xs"
  shows "sum_list (map f (remove_nth v xs)) + f (xs ! v) = sum_list (map f xs)"
proof -
  from nth_split3 [OF assms] obtain pre post where
    "xs = pre @ xs ! v # post" "remove_nth v xs = pre @ post" by metis
  then have "sum_list (map f xs) = sum_list (map f pre) + f (xs ! v) + sum_list (map f post)"
    and "sum_list (map f (remove_nth v xs)) = sum_list (map f pre) + sum_list (map f post)"
    by (metis append_Cons append_Nil list.simps(9) map_append sum_list.Cons sum_list.append add.assoc)+
  then show ?thesis by simp
qed

lemma run_waiter_weights:
  "avalues (run_waiter t w s) = avalues s" "flushes (run_waiter t w s) = flushes s"
  "call (run_waiter t w s) = call s"
  by (simp_all add: run_waiter_def split: waiter.splits option.splits)

lemma AndThen_weight:
  assumes "failure (AndThen t v w s) = None"
  shows "sum_list (map value_weight (avalues (AndThen t v w s)))
           \<le> Suc (sum_list (map value_weight (avalues s)))"
    and "flushes (AndThen t v w s) = flushes s"
proof -
  show "flushes (AndThen t v w s) = flushes s"
    by (simp add: AndThen_def run_waiter_weights)
  show "sum_list (map value_weight (avalues (AndThen t v w s)))
           \<le> Suc (sum_list (map value_weight (avalues s)))"
  proof (cases "failure s \<noteq> None \<or> length (avalues s) \<le> v \<or> IsAvailable s v")
    case True
    then show ?thesis using assms
      by (auto simp add: AndThen_def run_waiter_weights)
  next
    case False
    then have v: "v < length (avalues s)" and u: "state_of (avalues s ! v) = Unresolved"
      by (simp_all add: IsAvailable_def)
    let ?y = "(avalues s ! v)\<lparr>waiters := w # waiters (avalues s ! v)\<rparr>"
    from False have a: "avalues (AndThen t v w s) = (avalues s)[v := ?y]"
      by (simp add: AndThen_def)
    from sum_list_update_nat [OF v, of value_weight ?y]
    have "sum_list (map value_weight ((avalues s)[v := ?y])) + value_weight (avalues s ! v)
            = sum_list (map value_weight (avalues s)) + value_weight ?y" .
    moreover have "value_weight ?y = Suc (value_weight (avalues s ! v))"
      using u by (simp add: value_weight_def)
    ultimately show ?thesis by (simp add: a)
  qed
qed

lemma call_step_decreases:
  assumes st: "call_step s = Some s'" and f: "failure s' = None"
  shows "rwr_steps s' < rwr_steps s"
proof -
  from st have f0: "failure s = None" by (auto simp add: call_step_def split: if_splits)
  show ?thesis
  proof (cases "call s")
    case (Scanning t vals us c)
    show ?thesis
    proof (cases vals)
      case Nil
      consider (none) "us = []" | (one) "us \<noteq> []" "length us = 1" | (many) "us \<noteq> []" "length us \<noteq> 1"
        by blast
      then show ?thesis
      proof cases
        case none
        with st f0 Scanning Nil show ?thesis
          by (auto simp add: call_step_def rwr_steps_def)
      next
        case one
        with st f0 Scanning Nil
        have s': "s' = (AndThen t (us ! 0) (RunCallee c) s)\<lparr>call := Returned\<rparr>"
          by (auto simp add: call_step_def)
        with f have "failure (AndThen t (us ! 0) (RunCallee c) s) = None" by simp
        from AndThen_weight [OF this] one Scanning Nil show ?thesis
          by (simp add: rwr_steps_def s')
      next
        case many
        with st f0 Scanning Nil show ?thesis
          by (auto simp add: call_step_def rwr_steps_def Let_def)
      qed
    next
      case (Cons i rest)
      with st f0 f Scanning show ?thesis
        by (auto simp add: call_step_def rwr_steps_def split: if_splits)
    qed
  next
    case (Attaching t data vals)
    show ?thesis
    proof (cases vals)
      case Nil
      with st f0 Attaching show ?thesis by (auto simp add: call_step_def rwr_steps_def)
    next
      case (Cons val rest)
      with st f0 Attaching
      have s': "s' = (AndThen t val (DecrementAndTest data) s)
                     \<lparr>call := (if rest = [] then Returned else Attaching t data rest)\<rparr>"
        by (auto simp add: call_step_def)
      with f have "failure (AndThen t val (DecrementAndTest data) s) = None" by simp
      from AndThen_weight [OF this] Attaching Cons show ?thesis
        by (simp add: rwr_steps_def s')
    qed
  next
    case Returned
    with st show ?thesis by (simp add: call_step_def split: if_splits)
  qed
qed

lemma SetState_decreases:
  assumes st: "SetState t v x s = Some s'"
  shows "rwr_steps s' < rwr_steps s"
proof -
  from st have v: "v < length (avalues s)" and u: "state_of (avalues s ! v) = Unresolved"
    and x: "x \<noteq> Unresolved"
    and s': "s' = s\<lparr>avalues := (avalues s)[v := \<lparr>state_of = x, waiters = []\<rparr>],
                   flushes := flushes s @ [(t, waiters (avalues s ! v))]\<rparr>"
    by (auto simp add: SetState_def IsAvailable_def split: if_splits)
  let ?y = "\<lparr>state_of = x, waiters = []\<rparr> :: 'a AsyncValue"
  from sum_list_update_nat [OF v, of value_weight ?y]
  have "sum_list (map value_weight ((avalues s)[v := ?y])) + value_weight (avalues s ! v)
          = sum_list (map value_weight (avalues s)) + value_weight ?y" .
  moreover have "value_weight ?y = 0" using x by (simp add: value_weight_def)
  moreover have "value_weight (avalues s ! v) = 2 + length (waiters (avalues s ! v))"
    using u by (simp add: value_weight_def)
  ultimately show ?thesis by (simp add: rwr_steps_def s')
qed

lemma flush_step_decreases:
  assumes st: "flush_step i s = Some s'"
  shows "rwr_steps s' < rwr_steps s"
proof -
  let ?g = "\<lambda>f :: nat \<times> 'a waiter list. Suc (length (snd f))"
  from st have i: "i < length (flushes s)" by (auto simp add: flush_step_def split: if_splits)
  obtain t ws where fl: "flushes s ! i = (t, ws)" by (cases "flushes s ! i")
  show ?thesis
  proof (cases ws)
    case Nil
    with st i fl have s': "s' = s\<lparr>flushes := remove_nth i (flushes s)\<rparr>"
      by (auto simp add: flush_step_def split: if_splits)
    from sum_list_remove_nat [OF i, of ?g] fl
    have "sum_list (map ?g (remove_nth i (flushes s))) < sum_list (map ?g (flushes s))" by simp
    then show ?thesis by (simp add: rwr_steps_def s')
  next
    case (Cons w rest)
    with st i fl have s': "s' = (run_waiter t w s)\<lparr>flushes := (flushes s)[i := (t, rest)]\<rparr>"
      by (auto simp add: flush_step_def split: if_splits)
    from sum_list_update_nat [OF i, of ?g "(t, rest)"] fl Cons
    have "sum_list (map ?g ((flushes s)[i := (t, rest)])) < sum_list (map ?g (flushes s))" by simp
    then show ?thesis by (simp add: rwr_steps_def s' run_waiter_weights)
  qed
qed

lemma rwr_step_decreases:
  assumes "rwr_step a s = Some s'" and "failure s' = None"
  shows "rwr_steps s' < rwr_steps s"
  using assms
  by (cases a) (simp_all add: call_step_decreases SetState_decreases flush_step_decreases)

lemma failed_stuck: "failure s \<noteq> None \<Longrightarrow> rwr_step a s = None"
  by (cases a) (simp_all add: call_step_def flush_step_def SetState_def)

lemma rwr_run_bound:
  assumes "rwr_run as s = Some s'" and "failure s' = None"
  shows "length as + rwr_steps s' \<le> rwr_steps s"
  using assms
proof (induction as arbitrary: s)
  case Nil
  then show ?case by simp
next
  case (Cons a as)
  from Cons.prems(1) obtain s1 where 1: "rwr_step a s = Some s1"
    and 2: "rwr_run as s1 = Some s'" by (auto split: option.splits)
  have f1: "failure s1 = None"
  proof (cases as)
    case Nil
    with 2 Cons.prems(2) show ?thesis by simp
  next
    case (Cons b bs)
    with 2 have "rwr_step b s1 \<noteq> None" by (auto split: option.splits)
    with failed_stuck [of s1 b] show ?thesis by blast
  qed
  from 1 f1 have "rwr_steps s1 < rwr_steps s" by (rule rwr_step_decreases)
  moreover from Cons.IH [OF 2 Cons.prems(2)] have "length as + rwr_steps s' \<le> rwr_steps s1" .
  ultimately show ?case by simp
qed

lemma rwr_steps_start:
  "rwr_steps (start t vals c vs) = 3 * length vals + 3 + sum_list (map value_weight vs)"
  by (simp add: rwr_steps_def start_def)

lemma call_weight_step:
  assumes st: "rwr_step a s = Some s'" and f: "failure s' = None"
  shows "(if a = CallStep then 1 else 0) + call_weight (call s') \<le> call_weight (call s)"
proof (cases a)
  case CallStep
  with st have cs: "call_step s = Some s'" by simp
  then have f0: "failure s = None" by (auto simp add: call_step_def split: if_splits)
  have "call_weight (call s') < call_weight (call s)"
  proof (cases "call s")
    case (Scanning t vals us c)
    show ?thesis
    proof (cases vals)
      case Nil
      with cs f0 Scanning show ?thesis
        by (auto simp add: call_step_def Let_def split: if_splits)
    next
      case (Cons i rest)
      with cs f0 f Scanning show ?thesis
        by (auto simp add: call_step_def split: if_splits)
    qed
  next
    case (Attaching t data vals)
    with cs f0 show ?thesis
      by (cases vals) (auto simp add: call_step_def split: if_splits)
  next
    case Returned
    with cs show ?thesis by (simp add: call_step_def split: if_splits)
  qed
  with CallStep show ?thesis by simp
next
  case (FlushStep i)
  with st have "call s' = call s"
    by (auto simp add: flush_step_def run_waiter_weights split: if_splits prod.splits list.splits)
  with FlushStep show ?thesis by simp
next
  case (Resolve t v x)
  with st have "call s' = call s"
    by (auto simp add: SetState_def split: if_splits)
  with Resolve show ?thesis by simp
qed

lemma call_steps_bound:
  assumes "rwr_run as s = Some s'" and "failure s' = None"
  shows "length (filter (\<lambda>a. a = CallStep) as) + call_weight (call s') \<le> call_weight (call s)"
  using assms
proof (induction as arbitrary: s)
  case Nil
  then show ?case by simp
next
  case (Cons a as)
  from Cons.prems(1) obtain s1 where 1: "rwr_step a s = Some s1"
    and 2: "rwr_run as s1 = Some s'" by (auto split: option.splits)
  have f1: "failure s1 = None"
  proof (cases as)
    case Nil
    with 2 Cons.prems(2) show ?thesis by simp
  next
    case (Cons b bs)
    with 2 have "rwr_step b s1 \<noteq> None" by (auto split: option.splits)
    with failed_stuck [of s1 b] show ?thesis by blast
  qed
  from call_weight_step [OF 1 f1]
  have "(if a = CallStep then 1 else 0) + call_weight (call s1) \<le> call_weight (call s)" .
  moreover from Cons.IH [OF 2 Cons.prems(2)]
  have "length (filter (\<lambda>a. a = CallStep) as) + call_weight (call s') \<le> call_weight (call s1)" .
  ultimately show ?case by (cases "a = CallStep") simp_all
qed

lemma rwr_completion:
  assumes "rwr_inv vals c d s"
  shows "\<exists>bs s'. rwr_run bs s = Some s' \<and> (\<forall>a. rwr_step a s' = None)"
  using assms
proof (induction "rwr_steps s" arbitrary: s rule: less_induct)
  case less
  show ?case
  proof (cases "\<forall>a. rwr_step a s = None")
    case True
    then have "rwr_run [] s = Some s \<and> (\<forall>a. rwr_step a s = None)" by simp
    then show ?thesis by blast
  next
    case False
    then obtain a s1 where a: "rwr_step a s = Some s1" by auto
    from less.prems a have 1: "rwr_inv vals c d s1" by (rule rwr_inv_step)
    from invoked_facts(1) [OF 1] have "failure s1 = None" .
    with a have 2: "rwr_steps s1 < rwr_steps s" by (rule rwr_step_decreases)
    from less.hyps [OF 2 1] obtain bs s' where
      "rwr_run bs s1 = Some s'" "\<forall>a. rwr_step a s' = None" by blast
    with a have "rwr_run (a # bs) s = Some s' \<and> (\<forall>a. rwr_step a s' = None)" by simp
    then show ?thesis by blast
  qed
qed

section \<open>The other operations: lemmas\<close>

lemma sint_of_nat_small:
  assumes "k < 2 ^ 31"
  shows "sint (of_nat k :: cint) = int k"
proof -
  have "sint (of_nat k :: cint) = signed_take_bit (LENGTH(32) - Suc 0) (int k)"
    by (simp only: signed_of_nat of_int_eq_id id_apply)
  also have "\<dots> = int k"
  proof (rule signed_take_bit_int_eq_self)
    have "- (2 ^ (LENGTH(32) - Suc 0)) \<le> (0 :: int)" by simp
    also have "0 \<le> int k" by simp
    finally show "- (2 ^ (LENGTH(32) - Suc 0)) \<le> int k" .
    show "int k < 2 ^ (LENGTH(32) - Suc 0)" using assms by simp
  qed
  finally show ?thesis .
qed

lemma capacity_small: "nat (sint (kDummyIndex :: cint)) < 2 ^ 31"
  using sint_lt [of kDummyIndex] by simp

lemma construct_inv:
  assumes inv: "globals_inv kDummyIndex idxs g"
  shows "HostContext_construct kDummyIndex this g =
           (if length idxs < nat (sint kDummyIndex)
            then Inr (of_nat (length idxs),
                      g\<lparr>next_host_context_index := of_nat (Suc (length idxs)),
                        all_host_contexts := (all_host_contexts g)[length idxs := Some this]\<rparr>)
            else Inl AssertionFailed)"
proof -
  let ?k = "length idxs"
  from inv have nx: "next_host_context_index g = of_nat ?k"
    and le: "?k \<le> nat (sint kDummyIndex)"
    and len: "length (all_host_contexts g) = nat (sint kDummyIndex)"
    by (auto simp: globals_inv_def)
  have k: "?k < 2 ^ 31" using le capacity_small [of kDummyIndex] by simp
  have s: "sint (of_nat ?k :: cint) = int ?k" using k by (rule sint_of_nat_small)
  have lt: "((of_nat ?k :: cint) <s kDummyIndex) = (?k < nat (sint kDummyIndex))"
    by (simp add: word_sless_alt s zless_nat_eq_int_zless)
  have nn: "\<not> (of_nat ?k :: cint) <s 0"
    by (simp add: word_sless_alt s)
  show ?thesis
    using lt nn len by (auto simp: HostContext_construct_def nx Let_def s)
qed

lemma construct_preserves:
  assumes inv: "globals_inv kDummyIndex idxs g"
    and c: "HostContext_construct kDummyIndex this g = Inr (i, g')"
  shows "globals_inv kDummyIndex (idxs @ [i]) g'"
proof -
  from c construct_inv [OF inv, of this]
  have lt: "length idxs < nat (sint kDummyIndex)" and i: "i = of_nat (length idxs)"
    and g': "g' = g\<lparr>next_host_context_index := of_nat (Suc (length idxs)),
                        all_host_contexts := (all_host_contexts g)[length idxs := Some this]\<rparr>"
    by (auto split: if_splits)
  from inv have "idxs = map of_nat [0..<length idxs]"
    and len: "length (all_host_contexts g) = nat (sint kDummyIndex)"
    by (auto simp: globals_inv_def)
  then have "idxs @ [i] = map of_nat [0..<Suc (length idxs)]"
    using i by simp
  then show ?thesis
    using lt len by (simp add: globals_inv_def g')
qed

lemma destroy_inv:
  assumes inv: "globals_inv kDummyIndex idxs g" and i: "i < nat (sint kDummyIndex)"
  shows "HostContext_destroy (of_nat i) g
           = Inr (g\<lparr>all_host_contexts := (all_host_contexts g)[i := None]\<rparr>)"
proof -
  from inv have len: "length (all_host_contexts g) = nat (sint kDummyIndex)"
    by (auto simp: globals_inv_def)
  have "i < 2 ^ 31" using i capacity_small [of kDummyIndex] by simp
  then have s: "sint (of_nat i :: cint) = int i" by (rule sint_of_nat_small)
  show ?thesis
    using i len by (simp add: HostContext_destroy_def word_sless_alt s)
qed

lemma destroy_preserves:
  assumes inv: "globals_inv kDummyIndex idxs g"
    and d: "HostContext_destroy i g = Inr g'"
  shows "globals_inv kDummyIndex idxs g'"
  using assms by (auto simp: HostContext_destroy_def globals_inv_def split: if_splits)

lemma run_lifecycle_inv:
  assumes "run_lifecycle kDummyIndex ops (idxs, g) = Inr (idxs', g')"
    and "globals_inv kDummyIndex idxs g"
  shows "globals_inv kDummyIndex idxs' g'"
  using assms
proof (induction ops arbitrary: idxs g)
  case Nil
  then show ?case by simp
next
  case (Cons op ops)
  show ?case
  proof (cases op)
    case (Construct this)
    with Cons.prems(1) obtain i g1 where
      c: "HostContext_construct kDummyIndex this g = Inr (i, g1)"
      and r: "run_lifecycle kDummyIndex ops (idxs @ [i], g1) = Inr (idxs', g')"
      by (auto split: sum.splits)
    from construct_preserves [OF Cons.prems(2) c] have "globals_inv kDummyIndex (idxs @ [i]) g1" .
    with r show ?thesis by (rule Cons.IH)
  next
    case (Destroy i)
    with Cons.prems(1) obtain g1 where d: "HostContext_destroy i g = Inr g1"
      and r: "run_lifecycle kDummyIndex ops (idxs, g1) = Inr (idxs', g')"
      by (auto split: sum.splits)
    from destroy_preserves [OF Cons.prems(2) d] have "globals_inv kDummyIndex idxs g1" .
    with r show ?thesis by (rule Cons.IH)
  qed
qed

lemma distinct_indices:
  assumes "k < 2 ^ 31"
  shows "distinct (map (of_nat :: nat \<Rightarrow> cint) [0..<k])"
proof -
  have "inj_on (of_nat :: nat \<Rightarrow> cint) (set [0..<k])"
  proof (rule inj_onI)
    fix a b assume a: "a \<in> set [0..<k]" and b: "b \<in> set [0..<k]"
      and e: "(of_nat a :: cint) = of_nat b"
    from a b assms have a': "a < 2 ^ 31" and b': "b < 2 ^ 31" by auto
    have "int a = sint (of_nat a :: cint)" using a' by (rule sint_of_nat_small [symmetric])
    also have "\<dots> = sint (of_nat b :: cint)" by (simp only: e)
    also have "\<dots> = int b" using b' by (rule sint_of_nat_small)
    finally show "a = b" by simp
  qed
  then show ?thesis by (simp add: distinct_map)
qed

lemma initial_globals_inv: "globals_inv kDummyIndex [] (initial_globals kDummyIndex)"
  by (simp add: globals_inv_def initial_globals_def)

lemma installs_snoc:
  "installs_since_restart (ops @ [op]) =
     (case op of
        CompareExchangeStrong expected desired success_order failure_order ok \<Rightarrow>
          if ok then Suc (installs_since_restart ops) else installs_since_restart ops
      | Exchange desired mo previous \<Rightarrow> 0)"
  by (cases op) (simp_all add: installs_since_restart_def)

lemma new_cancel_machine_inv: "cancel_inv new_cancel_machine"
  by (simp add: cancel_inv_def new_cancel_machine_def owned_def installs_since_restart_def)

lemma owned_fresh:
  assumes "cancel_inv s"
  shows "next_error_value s \<notin> set (owned s)" and "error_values s (next_error_value s) = None"
proof -
  from assms have b: "\<forall>a v. error_values s a = Some v \<longrightarrow> a < next_error_value s"
    and o: "\<forall>a. (a \<in> set (owned s)) = (error_values s a \<noteq> None)"
    by (simp_all add: cancel_inv_def)
  from b show n: "error_values s (next_error_value s) = None"
    by (cases "error_values s (next_error_value s)") auto
  with o show "next_error_value s \<notin> set (owned s)" by simp
qed

lemma owned_live:
  assumes "cancel_inv s" and "a \<in> set (owned s)"
  shows "\<exists>v. error_values s a = Some v \<and> refcount v = 1"
proof -
  from assms have "error_values s a \<noteq> None" by (simp add: cancel_inv_def)
  then obtain v where v: "error_values s a = Some v" by auto
  with assms(1) have "refcount v = 1" by (simp add: cancel_inv_def)
  with v show ?thesis by simp
qed

lemma inv_CallCancelExecution:
  assumes inv: "cancel_inv s" and step: "cancel_step (CallCancelExecution msg) s = Some s'"
  shows "cancel_inv s'"
proof -
  let ?n = "next_error_value s"
  from step have s': "s' = s\<lparr>error_values := (error_values s)(?n \<mapsto> \<lparr>message = msg, refcount = 1\<rparr>),
        next_error_value := Suc ?n,
        activities := activities s @ [Cancel_AtCompareExchange ?n]\<rparr>"
    by (simp add: cancel_step_def MakeErrorAsyncValueRef_def)
  have o: "owned s' = owned s @ [?n]" by (simp add: s' owned_def)
  note fr = owned_fresh [OF inv]
  from inv have 1: "fault s' = None" by (simp add: cancel_inv_def s')
  from inv fr have 2: "distinct (owned s')" by (simp add: cancel_inv_def o)
  have ev: "error_values s' = (error_values s)(?n \<mapsto> \<lparr>message = msg, refcount = 1\<rparr>)"
    and nx: "next_error_value s' = Suc ?n" by (simp_all add: s')
  from inv have 3: "\<forall>a. (a \<in> set (owned s')) = (error_values s' a \<noteq> None)"
    by (auto simp add: cancel_inv_def o ev)
  from inv have 4: "\<forall>a v. error_values s' a = Some v \<longrightarrow> refcount v = 1 \<and> a < next_error_value s'"
    by (auto simp add: cancel_inv_def ev nx less_Suc_eq)
  from inv have 5: "installs_since_restart (atomic_ops s') = (if cancel_value s' = None then 0 else 1)"
    by (simp add: cancel_inv_def s')
  from inv have 6: "\<forall>op \<in> set (atomic_ops s'). as_in_source op"
    by (simp add: cancel_inv_def s')
  show ?thesis
    unfolding cancel_inv_def by (intro conjI) (rule 1 2 3 4 5 6)+
qed

lemma inv_CallRestart:
  assumes inv: "cancel_inv s" and step: "cancel_step CallRestart s = Some s'"
  shows "cancel_inv s'"
proof (cases "cancel_value s")
  case None
  with step have s': "s' = s\<lparr>cancel_value := None,
        atomic_ops := atomic_ops s @ [Exchange None memory_order_acq_rel None]\<rparr>"
    by (simp add: cancel_step_def exchange_def)
  have o: "owned s' = owned s" using None by (simp add: s' owned_def)
  from inv show ?thesis
    by (simp add: cancel_inv_def o) (simp add: s' installs_snoc)
next
  case (Some v)
  with step have s': "s' = s\<lparr>cancel_value := None,
        atomic_ops := atomic_ops s @ [Exchange None memory_order_acq_rel (Some v)],
        activities := activities s @ [Restart_AtDropRef v]\<rparr>"
    by (simp add: cancel_step_def exchange_def)
  have o: "owned s = v # map error_value_of (activities s)" using Some by (simp add: owned_def)
  have o': "owned s' = map error_value_of (activities s) @ [v]" by (simp add: s' owned_def)
  have d: "distinct (owned s') = distinct (owned s)" by (auto simp add: o o')
  have m: "set (owned s') = set (owned s)" by (auto simp add: o o')
  from inv show ?thesis
    by (simp add: cancel_inv_def d m) (simp add: s' installs_snoc)
qed

lemma DropRef_owned:
  assumes "cancel_inv s" and "a \<in> set (owned s)"
  shows "DropRef a s = s\<lparr>error_values := (error_values s)(a := None)\<rparr>"
  using owned_live [OF assms] by (auto simp add: DropRef_def)

lemma inv_dropped:
  assumes inv: "cancel_inv s" and i: "i < length (activities s)"
    and a: "error_value_of (activities s ! i) = a"
  shows "cancel_inv (s\<lparr>error_values := (error_values s)(a := None),
                       activities := remove_nth i (activities s)\<rparr>)"
proof -
  let ?s' = "s\<lparr>error_values := (error_values s)(a := None),
               activities := remove_nth i (activities s)\<rparr>"
  from nth_split3 [OF i] obtain pre post where
    sp: "activities s = pre @ activities s ! i # post"
    and rm: "remove_nth i (activities s) = pre @ post" by metis
  let ?c = "case cancel_value s of None \<Rightarrow> [] | Some v \<Rightarrow> [v]"
  have "owned s = ?c @ map error_value_of (pre @ activities s ! i # post)"
    unfolding owned_def by (subst sp) (rule refl)
  then have o: "owned s = ?c @ map error_value_of pre @ a # map error_value_of post"
    using a by simp
  have o': "owned ?s' = ?c @ map error_value_of pre @ map error_value_of post"
    by (simp add: owned_def rm)
  from inv have d: "distinct (owned s)" by (simp add: cancel_inv_def)
  from d have 2: "distinct (owned ?s')" by (simp add: o o')
  from d have m: "\<forall>b. (b \<in> set (owned ?s')) = (b \<in> set (owned s) \<and> b \<noteq> a)"
    by (auto simp add: o o')
  from inv have 1: "fault ?s' = None" by (simp add: cancel_inv_def)
  from inv m have 3: "\<forall>b. (b \<in> set (owned ?s')) = (error_values ?s' b \<noteq> None)"
    by (simp add: cancel_inv_def)
  from inv have 4: "\<forall>b v. error_values ?s' b = Some v \<longrightarrow> refcount v = 1 \<and> b < next_error_value ?s'"
    by (simp add: cancel_inv_def)
  from inv have 5: "installs_since_restart (atomic_ops ?s') = (if cancel_value ?s' = None then 0 else 1)"
    by (simp add: cancel_inv_def)
  from inv have 6: "\<forall>op \<in> set (atomic_ops ?s'). as_in_source op"
    by (simp add: cancel_inv_def)
  show ?thesis
    unfolding cancel_inv_def by (intro conjI) (rule 1 2 3 4 5 6)+
qed

lemma owned_activity:
  assumes "i < length (activities s)"
  shows "error_value_of (activities s ! i) \<in> set (owned s)"
  using assms by (simp add: owned_def)

lemma inv_Resume:
  assumes inv: "cancel_inv s" and step: "cancel_step (Resume i) s = Some s'"
  shows "cancel_inv s'"
proof -
  from step have i: "i < length (activities s)"
    by (auto simp add: cancel_step_def split: if_splits)
  from nth_split3 [OF i] obtain pre post where
    sp: "activities s = pre @ activities s ! i # post"
    and up: "\<forall>y. (activities s)[i := y] = pre @ y # post"
    and rm: "remove_nth i (activities s) = pre @ post" by metis
  let ?c = "case cancel_value s of None \<Rightarrow> [] | Some v \<Rightarrow> [v]"
  have ow: "owned s = ?c @ map error_value_of (pre @ activities s ! i # post)"
    unfolding owned_def by (subst sp) (rule refl)
  show ?thesis
  proof (cases "activities s ! i")
    case (Cancel_AtCompareExchange e)
    have o: "owned s = ?c @ map error_value_of pre @ e # map error_value_of post"
      using ow Cancel_AtCompareExchange by simp
    show ?thesis
    proof (cases "cancel_value s")
      case None
      with step i Cancel_AtCompareExchange
      have s': "s' = s\<lparr>cancel_value := Some e,
          atomic_ops := atomic_ops s @ [CompareExchangeStrong None (Some e)
                          memory_order_release memory_order_relaxed True],
          activities := pre @ post\<rparr>"
        by (simp add: cancel_step_def compare_exchange_strong_def rm)
      have o': "owned s' = e # map error_value_of pre @ map error_value_of post"
        by (simp add: s' owned_def)
      have d: "distinct (owned s') = distinct (owned s)" using None by (auto simp add: o o')
      have m: "set (owned s') = set (owned s)" using None by (auto simp add: o o')
      from inv None show ?thesis
        by (simp add: cancel_inv_def d m) (simp add: s' installs_snoc)
    next
      case (Some v)
      with step i Cancel_AtCompareExchange
      have s': "s' = s\<lparr>
          atomic_ops := atomic_ops s @ [CompareExchangeStrong None (Some e)
                          memory_order_release memory_order_relaxed False],
          activities := pre @ Cancel_AtDropRef e # post\<rparr>"
        by (simp add: cancel_step_def compare_exchange_strong_def up)
      have "owned s' = ?c @ map error_value_of pre @ e # map error_value_of post"
        by (simp add: s' owned_def)
      then have o': "owned s' = owned s" by (simp only: o)
      from inv Some show ?thesis
        by (simp add: cancel_inv_def o') (simp add: s' installs_snoc)
    qed
  next
    case (Cancel_AtDropRef a)
    then have a: "error_value_of (activities s ! i) = a" by simp
    with owned_activity [OF i] have "a \<in> set (owned s)" by simp
    note dr = DropRef_owned [OF inv this]
    from step i Cancel_AtDropRef
    have "s' = s\<lparr>error_values := (error_values s)(a := None),
                  activities := remove_nth i (activities s)\<rparr>"
      by (simp add: cancel_step_def dr)
    with inv_dropped [OF inv i a] show ?thesis by simp
  next
    case (Restart_AtDropRef a)
    then have a: "error_value_of (activities s ! i) = a" by simp
    with owned_activity [OF i] have "a \<in> set (owned s)" by simp
    note dr = DropRef_owned [OF inv this]
    from step i Restart_AtDropRef
    have "s' = s\<lparr>error_values := (error_values s)(a := None),
                  activities := remove_nth i (activities s)\<rparr>"
      by (simp add: cancel_step_def dr)
    with inv_dropped [OF inv i a] show ?thesis by simp
  qed
qed

lemma cancel_inv_step:
  assumes "cancel_inv s" and "cancel_step a s = Some s'"
  shows "cancel_inv s'"
proof (cases a)
  case (CallCancelExecution msg)
  with assms show ?thesis using inv_CallCancelExecution by simp
next
  case CallRestart
  with assms show ?thesis using inv_CallRestart by simp
next
  case (Resume i)
  with assms show ?thesis using inv_Resume by simp
qed

lemma cancel_inv_run:
  assumes "cancel_run as s = Some s'" and "cancel_inv s"
  shows "cancel_inv s'"
  using assms
proof (induction as arbitrary: s)
  case Nil
  then show ?case by simp
next
  case (Cons a as)
  from Cons.prems(1) obtain s1 where 1: "cancel_step a s = Some s1"
    and 2: "cancel_run as s1 = Some s'" by (auto split: option.splits)
  from Cons.prems(2) 1 have "cancel_inv s1" by (rule cancel_inv_step)
  with 2 show ?case by (rule Cons.IH)
qed

lemma CancelExecution_fields:
  assumes inv: "cancel_inv s"
  shows "cancel_value (CancelExecution msg s)
           = (case cancel_value s of None \<Rightarrow> Some (next_error_value s) | Some v \<Rightarrow> Some v)"
    and "error_values (CancelExecution msg s)
           = (case cancel_value s of
                None \<Rightarrow> (error_values s)(next_error_value s \<mapsto> \<lparr>message = msg, refcount = 1\<rparr>)
              | Some v \<Rightarrow> error_values s)"
    and "atomic_ops (CancelExecution msg s)
           = atomic_ops s @ [CompareExchangeStrong None (Some (next_error_value s))
                               memory_order_release memory_order_relaxed (cancel_value s = None)]"
    and "fault (CancelExecution msg s) = None"
proof -
  from inv have f: "fault s = None" by (simp add: cancel_inv_def)
  from owned_fresh(2) [OF inv] have n: "error_values s (next_error_value s) = None" .
  then have e: "(error_values s)(next_error_value s := None) = error_values s"
    by (simp add: fun_upd_idem)
  show "cancel_value (CancelExecution msg s)
           = (case cancel_value s of None \<Rightarrow> Some (next_error_value s) | Some v \<Rightarrow> Some v)"
    by (cases "cancel_value s")
      (simp_all add: CancelExecution_def MakeErrorAsyncValueRef_def compare_exchange_strong_def
        DropRef_def)
  show "error_values (CancelExecution msg s)
           = (case cancel_value s of
                None \<Rightarrow> (error_values s)(next_error_value s \<mapsto> \<lparr>message = msg, refcount = 1\<rparr>)
              | Some v \<Rightarrow> error_values s)"
    by (cases "cancel_value s")
      (simp_all add: CancelExecution_def MakeErrorAsyncValueRef_def compare_exchange_strong_def
        DropRef_def e)
  show "atomic_ops (CancelExecution msg s)
           = atomic_ops s @ [CompareExchangeStrong None (Some (next_error_value s))
                               memory_order_release memory_order_relaxed (cancel_value s = None)]"
    by (cases "cancel_value s")
      (simp_all add: CancelExecution_def MakeErrorAsyncValueRef_def compare_exchange_strong_def
        DropRef_def)
  show "fault (CancelExecution msg s) = None"
    using f by (cases "cancel_value s")
      (simp_all add: CancelExecution_def MakeErrorAsyncValueRef_def compare_exchange_strong_def
        DropRef_def)
qed

lemma owned_cancel_value:
  assumes "cancel_value s = Some v"
  shows "v \<in> set (owned s)"
  using assms by (simp add: owned_def)

lemma Restart_fields:
  assumes inv: "cancel_inv s"
  shows "cancel_value (Restart s) = None"
    and "error_values (Restart s)
           = (case cancel_value s of None \<Rightarrow> error_values s
              | Some v \<Rightarrow> (error_values s)(v := None))"
    and "atomic_ops (Restart s)
           = atomic_ops s @ [Exchange None memory_order_acq_rel (cancel_value s)]"
    and "fault (Restart s) = None"
    and "next_error_value (Restart s) = next_error_value s"
proof -
  from inv have f: "fault s = None" by (simp add: cancel_inv_def)
  have l: "\<exists>x. error_values s v = Some x \<and> refcount x = 1" if "cancel_value s = Some v" for v
    using owned_live [OF inv owned_cancel_value [OF that]] .
  show "cancel_value (Restart s) = None"
    using l by (cases "cancel_value s") (auto simp add: Restart_def exchange_def DropRef_def)
  show "error_values (Restart s)
           = (case cancel_value s of None \<Rightarrow> error_values s
              | Some v \<Rightarrow> (error_values s)(v := None))"
    using l by (cases "cancel_value s") (auto simp add: Restart_def exchange_def DropRef_def)
  show "atomic_ops (Restart s)
           = atomic_ops s @ [Exchange None memory_order_acq_rel (cancel_value s)]"
    using l by (cases "cancel_value s") (auto simp add: Restart_def exchange_def DropRef_def)
  show "fault (Restart s) = None"
    using l f by (cases "cancel_value s") (auto simp add: Restart_def exchange_def DropRef_def)
  show "next_error_value (Restart s) = next_error_value s"
    using l by (cases "cancel_value s") (auto simp add: Restart_def exchange_def DropRef_def)
qed

lemma snoc_facts:
  "(xs @ [x]) ! length xs = x" "remove_nth (length xs) (xs @ [x]) = xs"
  "(xs @ [x])[length xs := y] = xs @ [y]"
  by (simp_all add: remove_nth_def)

lemma CancelExecution_run:
  "cancel_run (CallCancelExecution msg #
               (if cancel_value s = None then [Resume (length (activities s))]
                else [Resume (length (activities s)), Resume (length (activities s))])) s
     = Some (CancelExecution msg s)"
  by (cases "cancel_value s")
    (simp_all add: cancel_step_def CancelExecution_def MakeErrorAsyncValueRef_def
      compare_exchange_strong_def DropRef_def snoc_facts split: option.splits)

lemma Restart_run:
  "cancel_run (CallRestart #
               (if cancel_value s = None then [] else [Resume (length (activities s))])) s
     = Some (Restart s)"
  by (cases "cancel_value s")
    (simp_all add: cancel_step_def Restart_def exchange_def DropRef_def snoc_facts
      split: option.splits)
















section \<open>ParallelFor: the claims\<close>

text \<open>
  C10.  \<open>ParallelFor\<close> called with \<open>n = 0\<close>, a minimal block size of at least 1
  and at least one worker thread takes the synchronous path: on the caller thread,
  \<open>compute(0, 0)\<close> is called once, with the empty range, and then \<open>on_done()\<close>
  once.  Nothing is enqueued: the work queue is empty, the trace has no
  \<open>EnqueueWork\<close> event, and no further step is possible.
\<close>

theorem ParallelFor_empty_range:
  assumes "1 \<le> min_block_size" and "0 <s workers"
  shows "ParallelFor workers 0 min_block_size =
           \<lparr>ctx = None, frames = [], queue = [],
            trace = [(Caller, ComputeCall 0 0), (Caller, ComputeReturn 0 0), (Caller, OnDone)],
            aborted = None\<rparr>
         \<and> finished (ParallelFor workers 0 min_block_size)
         \<and> enqueues_of (trace (ParallelFor workers 0 min_block_size)) = []
         \<and> (\<forall>a. step a (ParallelFor workers 0 min_block_size) = None)"
proof -
  have d: "kMaxOversharding * scast workers \<noteq> (0 :: size_t)"
    using assms(2) by (rule workers_divisor_nonzero)
  have m: "max min_block_size 0 = min_block_size" by (simp add: max_def)
  have 1: "ParallelFor workers 0 min_block_size =
           \<lparr>ctx = None, frames = [], queue = [],
            trace = [(Caller, ComputeCall 0 0), (Caller, ComputeReturn 0 0), (Caller, OnDone)],
            aborted = None\<rparr>"
    using d assms(1) by (simp add: ParallelFor_def Let_def m)
  have "step a (ParallelFor workers 0 min_block_size) = None" for a
    by (cases a) (simp_all add: 1 EvalBlocks_step_def take_task_def)
  with 1 show ?thesis by (simp add: finished_def)
qed

theorem ParallelFor_empty_range_witness:
  "(1 :: size_t) \<le> 16 \<and> (0 :: cint) <s 4 \<and>
   ParallelFor 4 0 16 =
     \<lparr>ctx = None, frames = [], queue = [],
      trace = [(Caller, ComputeCall 0 0), (Caller, ComputeReturn 0 0), (Caller, OnDone)],
      aborted = None\<rparr>"
proof -
  have 1: "(1 :: size_t) \<le> 16" by simp
  have 2: "(0 :: cint) <s 4" by (simp add: word_sless_alt)
  from ParallelFor_empty_range [OF 1 2] 1 2 show ?thesis by blast
qed

text \<open>
  C9.  An activation \<open>EvalBlocks(lo, hi)\<close> with \<open>lo < hi\<close>, in a context whose
  pending counter is \<open>hi - lo\<close> (as for \<open>EvalBlocks(0, pending)\<close>), terminates
  together with all the tasks it spawns, under every schedule of the threads.
  A schedule never aborts and has at most \<open>5 * (hi - lo) - 2\<close> steps; a state that
  is not finished can always move, and the finished states are those reached after
  exactly that many steps.  The number of calls of \<open>compute\<close> is then \<open>hi - lo\<close>,
  which is one per activation (the first one and one for each enqueued task).
  In every reachable state, a split keeps the range \<open>[sb, mid)\<close> and enqueues
  \<open>[mid, eb)\<close> with \<open>sb < mid < eb\<close>, so both are strictly smaller and non-empty.
\<close>

theorem EvalBlocks_terminates:
  fixes lo hi :: size_t
  assumes lt: "lo < hi"
    and pend: "pf_pending_blocks c = hi - lo"
    and run: "run as \<lparr>ctx = Some c, frames = [Frame t lo hi AtLoop], queue = [], trace = [],
                     aborted = None\<rparr> = Some s"
  shows "aborted s = None
       \<and> length as \<le> 5 * unat (hi - lo) - 2
       \<and> (finished s \<longleftrightarrow> length as = 5 * unat (hi - lo) - 2)
       \<and> (\<not> finished s \<longrightarrow> (\<exists>a s'. step a s = Some s'))
       \<and> (finished s \<longrightarrow> length (calls_of (trace s)) = unat (hi - lo)
                        \<and> length (calls_of (trace s)) = Suc (length (enqueues_of (trace s))))
       \<and> (\<forall>i t' sb eb. i < length (frames s) \<and> frames s ! i = Frame t' sb eb AtLoop
              \<and> 1 < eb - sb \<longrightarrow>
            sb < sb + (eb - sb) div 2 \<and> sb + (eb - sb) div 2 < eb \<and>
            step (Run i) s =
              Some (s\<lparr>queue := queue s @ [(sb + (eb - sb) div 2, eb)],
                      frames := (frames s)[i := Frame t' sb (sb + (eb - sb) div 2) AtLoop],
                      trace := trace s @ [(t', EnqueueWork (sb + (eb - sb) div 2) eb)]\<rparr>))"
proof -
  let ?s0 = "\<lparr>ctx = Some c, frames = [Frame t lo hi AtLoop], queue = [], trace = [],
              aborted = None\<rparr>"
  let ?L = "unat lo" and ?H = "unat hi"
  have inv0: "pf_inv ?L ?H (pf_n c) (pf_block_size c) ?s0"
    using lt pend by (rule pf_inv_EvalBlocks)
  from lt have ult: "?L < ?H" by (simp add: word_less_nat_alt)
  then have "lo \<le> hi" by (simp add: word_le_nat_alt)
  then have d: "unat (hi - lo) = ?H - ?L" by (rule unat_sub)
  have r0: "remaining_steps ?s0 = 5 * unat (hi - lo) - 2"
    by (simp add: remaining_steps_def d)
  from pf_inv_run [OF run inv0]
  have inv: "pf_inv ?L ?H (pf_n c) (pf_block_size c) s"
    and len: "length as + remaining_steps s = 5 * unat (hi - lo) - 2"
    by (simp_all add: r0)
  have ab: "aborted s = None" using inv by (simp add: pf_inv_def)
  have fin: "finished s \<longleftrightarrow> length as = 5 * unat (hi - lo) - 2"
    using len finished_facts(5) [OF inv] no_steps_finished [OF inv] by auto
  have prog: "\<not> finished s \<longrightarrow> (\<exists>a s'. step a s = Some s')"
    using progress [OF ab] by blast
  have cnt: "finished s \<longrightarrow> length (calls_of (trace s)) = unat (hi - lo)
                \<and> length (calls_of (trace s)) = Suc (length (enqueues_of (trace s)))"
    using finished_facts(3,4) [OF inv] d by simp
  have spl: "\<forall>i t' sb eb. i < length (frames s) \<and> frames s ! i = Frame t' sb eb AtLoop
              \<and> 1 < eb - sb \<longrightarrow>
            sb < sb + (eb - sb) div 2 \<and> sb + (eb - sb) div 2 < eb \<and>
            step (Run i) s =
              Some (s\<lparr>queue := queue s @ [(sb + (eb - sb) div 2, eb)],
                      frames := (frames s)[i := Frame t' sb (sb + (eb - sb) div 2) AtLoop],
                      trace := trace s @ [(t', EnqueueWork (sb + (eb - sb) div 2) eb)]\<rparr>)"
    using split_step [OF inv] by blast
  from len have le: "length as \<le> 5 * unat (hi - lo) - 2" by simp
  show ?thesis
    by (intro conjI) (rule ab le fin prog cnt spl)+
qed

theorem EvalBlocks_terminates_witness:
  "(0 :: size_t) < 3
   \<and> run [Run 0, Run 0, Take 0, Run 1, Run 0, Run 0, Take 0, Run 1, Run 0, Run 1, Run 1, Run 0, Run 0]
         \<lparr>ctx = Some \<lparr>pf_n = 3, pf_block_size = 1, pf_pending_blocks = 3\<rparr>,
          frames = [Frame Caller 0 3 AtLoop], queue = [], trace = [], aborted = None\<rparr>
       = Some \<lparr>ctx = None, frames = [], queue = [],
               trace = [(Caller, EnqueueWork 1 3), (Caller, ComputeCall 0 1),
                        (Worker, EnqueueWork 2 3), (Caller, ComputeReturn 0 1),
                        (Worker, ComputeCall 2 3), (Worker, ComputeCall 1 2),
                        (Worker, ComputeReturn 2 3), (Worker, ComputeReturn 1 2),
                        (Worker, OnDone)],
               aborted = None\<rparr>
   \<and> length (calls_of [(Caller, EnqueueWork 1 3), (Caller, ComputeCall 0 1),
                        (Worker, EnqueueWork 2 3), (Caller, ComputeReturn 0 1),
                        (Worker, ComputeCall 2 3), (Worker, ComputeCall 1 2),
                        (Worker, ComputeReturn 2 3), (Worker, ComputeReturn 1 2),
                        (Worker, OnDone)]) = unat (3 - 0 :: size_t)"
proof -
  let ?c = "\<lparr>pf_n = 3, pf_block_size = 1, pf_pending_blocks = 3\<rparr>"
  let ?tr = "[(Caller, EnqueueWork 1 3), (Caller, ComputeCall 0 1),
                        (Worker, EnqueueWork 2 3), (Caller, ComputeReturn 0 1),
                        (Worker, ComputeCall 2 3), (Worker, ComputeCall 1 2),
                        (Worker, ComputeReturn 2 3), (Worker, ComputeReturn 1 2),
                        (Worker, OnDone)]"
  let ?s = "\<lparr>ctx = None, frames = [], queue = [], trace = ?tr, aborted = None\<rparr>"
  have 1: "(0 :: size_t) < 3" by simp
  have 2: "pf_pending_blocks ?c = 3 - 0" by simp
  have 3: "run [Run 0, Run 0, Take 0, Run 1, Run 0, Run 0, Take 0, Run 1, Run 0, Run 1, Run 1, Run 0, Run 0]
         \<lparr>ctx = Some ?c, frames = [Frame Caller 0 3 AtLoop], queue = [], trace = [],
          aborted = None\<rparr> = Some ?s"
    by (simp add: EvalBlocks_step_def take_task_def remove_nth_def Let_def)
  have 4: "finished ?s" by (simp add: finished_def)
  from EvalBlocks_terminates [OF 1 2 3] 4
  have "length (calls_of (trace ?s)) = unat (3 - 0 :: size_t)" by blast
  with 1 3 show ?thesis by simp
qed

text \<open>
  C1.  The claim: for \<open>n \<ge> 1\<close>, \<open>min_block \<ge> 1\<close> and at least one worker, the
  calls of \<open>compute\<close> partition \<open>[0, n)\<close> and \<open>on_done\<close> is called once, after all of
  them.  It holds where nothing overflows (lemma \<open>ParallelFor_partition\<close>), and
  fails at \<open>n = 2^64 - 1\<close>, \<open>min_block = 1\<close>, one worker: the block size is
  \<open>2^62 - 1\<close>, the sum \<open>n + block_size - 1\<close> in \<open>DivUp\<close> wraps around to \<open>2^62 - 3\<close>,
  the pending counter is 0, and \<open>EvalBlocks(0, 0)\<close> fails its own assertion
  \<open>end_block - start_block == 1\<close> before any call of \<open>compute\<close> or \<open>on_done\<close>; the
  aborted program has no further step.
\<close>

theorem ParallelFor_overflow_aborts:
  "run [Run 0] (ParallelFor 1 18446744073709551615 1) =
     Some \<lparr>ctx = Some \<lparr>pf_n = 18446744073709551615, pf_block_size = 4611686018427387903, pf_pending_blocks = 0\<rparr>,
           frames = [Frame Caller 0 0 AtLoop], queue = [], trace = [],
           aborted = Some AssertionFailed\<rparr>
   \<and> (\<forall>a s. step a \<lparr>ctx = Some \<lparr>pf_n = 18446744073709551615, pf_block_size = 4611686018427387903,
                                    pf_pending_blocks = 0\<rparr>,
                         frames = [Frame Caller 0 0 AtLoop], queue = [], trace = [],
                         aborted = Some AssertionFailed\<rparr> = None)"
proof -
  have 1: "ParallelFor 1 18446744073709551615 1 =
     \<lparr>ctx = Some \<lparr>pf_n = 18446744073709551615, pf_block_size = 4611686018427387903, pf_pending_blocks = 0\<rparr>,
      frames = [Frame Caller 0 0 AtLoop], queue = [], trace = [], aborted = None\<rparr>"
    by (simp add: ParallelFor_def kMaxOversharding_def Allocate_def DivUp_def PendingBlocks_def)
  have 2: "step a \<lparr>ctx = Some \<lparr>pf_n = 18446744073709551615, pf_block_size = 4611686018427387903,
                                    pf_pending_blocks = 0\<rparr>,
                         frames = [Frame Caller 0 0 AtLoop], queue = [], trace = [],
                         aborted = Some AssertionFailed\<rparr> = None" for a
    by (cases a) (simp_all add: EvalBlocks_step_def take_task_def)
  show ?thesis
    using 2 by (simp add: 1 EvalBlocks_step_def)
qed

text \<open>
  C4.  The claim: the block size is \<open>max(min_block, n / (4 * workers))\<close>; for
  \<open>n \<le> block_size\<close> the call runs \<open>compute(0, n)\<close> and \<open>on_done()\<close> on the caller
  thread (lemmas \<open>unat_block_size\<close> and \<open>ParallelFor_sync\<close>); otherwise the context
  is allocated with a pending counter of \<open>ceil(n / block_size)\<close> and the caller runs
  \<open>EvalBlocks(0, pending)\<close> (lemma \<open>ParallelFor_async\<close>, where nothing overflows).
  At \<open>n = 2^64 - 1\<close>, \<open>min_block = 1\<close>, one worker, the block size is \<open>2^62 - 1\<close> and
  \<open>ceil(n / block_size)\<close> is 5, but \<open>DivUp\<close> wraps around and the pending counter
  is initialised to 0.
\<close>

theorem ParallelFor_overflow_pending:
  "ParallelFor 1 18446744073709551615 1 =
     \<lparr>ctx = Some \<lparr>pf_n = 18446744073709551615, pf_block_size = 4611686018427387903,
                   pf_pending_blocks = 0\<rparr>,
      frames = [Frame Caller 0 0 AtLoop], queue = [], trace = [], aborted = None\<rparr>
   \<and> unat (max 1 (18446744073709551615 div (kMaxOversharding * scast (1 :: cint))) :: size_t)
       = 4611686018427387903
   \<and> (18446744073709551615 + 4611686018427387903 - 1) div 4611686018427387903 = (5 :: nat)"
  by (simp add: ParallelFor_def kMaxOversharding_def Allocate_def DivUp_def PendingBlocks_def)

section \<open>RunWhenReady: the claims\<close>

text \<open>
  C2.  \<open>RunWhenReady(values, callee)\<close> on thread \<open>t\<close> dispatches on the number of
  inputs that are not available (counted as often as they occur in \<open>values\<close>).
  With none, the callee is called at once, on \<open>t\<close>.  With one, the callee's waiter is
  pushed onto that value.  With two or more, a record is allocated at a fresh
  address \<open>data\<close>, with the counter set to their number and with the callee, and each
  unavailable value gets one decrementing waiter for each of its occurrences;
  nothing is called yet.  The decrementing waiter subtracts 1 from the counter; the
  one that reads 1 calls the callee and frees the record.
\<close>

theorem RunWhenReady_dispatch:
  assumes f: "failure h = None"
    and rng: "\<forall>v\<in>set vals. v < length (avalues h)"
    and un: "unavailable_values = filter (\<lambda>v. \<not> IsAvailable h v) vals"
    and h': "h' = RunWhenReady t vals c h"
    and data: "data = next_record h"
  shows "(unavailable_values = [] \<longrightarrow> h' = h\<lparr>invocations := invocations h @ [(t, c)]\<rparr>)
       \<and> (length unavailable_values = 1 \<longrightarrow>
            h' = h\<lparr>avalues := (avalues h)[hd unavailable_values :=
                      (avalues h ! hd unavailable_values)
                        \<lparr>waiters := RunCallee c # waiters (avalues h ! hd unavailable_values)\<rparr>]\<rparr>)
       \<and> (2 \<le> length unavailable_values \<longrightarrow>
            records h' = (records h)(data \<mapsto>
                \<lparr>counter = of_nat (length unavailable_values), callee = c\<rparr>)
          \<and> invocations h' = invocations h \<and> failure h' = None
          \<and> length (avalues h') = length (avalues h)
          \<and> (\<forall>v<length (avalues h).
                state_of (avalues h' ! v) = state_of (avalues h ! v)
              \<and> waiters (avalues h' ! v)
                  = replicate (count_list unavailable_values v) (DecrementAndTest data)
                    @ waiters (avalues h ! v)))
       \<and> (\<forall>t' g r. records g data = Some r \<longrightarrow>
            run_waiter t' (DecrementAndTest data) g
              = (if counter r \<noteq> 1
                 then g\<lparr>records := (records g)(data \<mapsto> r\<lparr>counter := counter r - 1\<rparr>)\<rparr>
                 else g\<lparr>invocations := invocations g @ [(t', callee r)],
                        records := (records g)(data := None)\<rparr>))"
proof -
  have sc: "scan h vals [] = Inr unavailable_values"
    using scan_filter [OF rng, of "[]"] un by simp
  have unv: "\<forall>u\<in>set unavailable_values. u < length (avalues h) \<and> \<not> IsAvailable h u"
    using rng un by auto
  have 1: "unavailable_values = [] \<longrightarrow> h' = h\<lparr>invocations := invocations h @ [(t, c)]\<rparr>"
    by (simp add: h' RunWhenReady_def sc)
  have 2: "length unavailable_values = 1 \<longrightarrow>
            h' = h\<lparr>avalues := (avalues h)[hd unavailable_values :=
                      (avalues h ! hd unavailable_values)
                        \<lparr>waiters := RunCallee c # waiters (avalues h ! hd unavailable_values)\<rparr>]\<rparr>"
  proof
    assume l: "length unavailable_values = 1"
    then obtain u where u: "unavailable_values = [u]"
      by (cases unavailable_values) auto
    with unv have "u < length (avalues h)" "\<not> IsAvailable h u" by auto
    then show "h' = h\<lparr>avalues := (avalues h)[hd unavailable_values :=
                      (avalues h ! hd unavailable_values)
                        \<lparr>waiters := RunCallee c # waiters (avalues h ! hd unavailable_values)\<rparr>]\<rparr>"
      using f u by (simp add: h' RunWhenReady_def sc AndThen_def)
  qed
  have 3: "2 \<le> length unavailable_values \<longrightarrow>
            records h' = (records h)(data \<mapsto>
                \<lparr>counter = of_nat (length unavailable_values), callee = c\<rparr>)
          \<and> invocations h' = invocations h \<and> failure h' = None
          \<and> length (avalues h') = length (avalues h)
          \<and> (\<forall>v<length (avalues h).
                state_of (avalues h' ! v) = state_of (avalues h ! v)
              \<and> waiters (avalues h' ! v)
                  = replicate (count_list unavailable_values v) (DecrementAndTest data)
                    @ waiters (avalues h ! v))"
  proof
    assume l: "2 \<le> length unavailable_values"
    let ?h1 = "h\<lparr>records := (records h)(data \<mapsto>
                          \<lparr>counter = of_nat (length unavailable_values), callee = c\<rparr>),
                  next_record := Suc data\<rparr>"
    from l have ne: "unavailable_values \<noteq> []" "length unavailable_values \<noteq> 1" by auto
    have e: "h' = fold (\<lambda>val. AndThen t val (DecrementAndTest data)) unavailable_values ?h1"
      using ne by (simp add: h' RunWhenReady_def sc Let_def data)
    have f1: "failure ?h1 = None" using f by simp
    have p1: "\<forall>u\<in>set unavailable_values. u < length (avalues ?h1) \<and> \<not> IsAvailable ?h1 u"
      using unv by (simp add: IsAvailable_def)
    from fold_AndThen_push [OF f1 p1, of t "DecrementAndTest data"]
    show "records h' = (records h)(data \<mapsto>
                \<lparr>counter = of_nat (length unavailable_values), callee = c\<rparr>)
          \<and> invocations h' = invocations h \<and> failure h' = None
          \<and> length (avalues h') = length (avalues h)
          \<and> (\<forall>v<length (avalues h).
                state_of (avalues h' ! v) = state_of (avalues h ! v)
              \<and> waiters (avalues h' ! v)
                  = replicate (count_list unavailable_values v) (DecrementAndTest data)
                    @ waiters (avalues h ! v))"
      unfolding e by simp
  qed
  have 4: "\<forall>t' g r. records g data = Some r \<longrightarrow>
            run_waiter t' (DecrementAndTest data) g
              = (if counter r \<noteq> 1
                 then g\<lparr>records := (records g)(data \<mapsto> r\<lparr>counter := counter r - 1\<rparr>)\<rparr>
                 else g\<lparr>invocations := invocations g @ [(t', callee r)],
                        records := (records g)(data := None)\<rparr>)"
    by (simp add: run_waiter_def)
  show ?thesis
    by (intro conjI) (rule 1 2 3 4)+
qed

theorem RunWhenReady_dispatch_witness:
  "records (RunWhenReady 5 [0, 1, 2, 0] ''cb''
      \<lparr>avalues = [\<lparr>state_of = Unresolved, waiters = []\<rparr>, \<lparr>state_of = Error, waiters = []\<rparr>,
                  \<lparr>state_of = Unresolved, waiters = [OtherWaiter 1]\<rparr>],
       records = Map.empty, next_record = 0, invocations = [], failure = None\<rparr>)
     = [0 \<mapsto> \<lparr>counter = 3, callee = ''cb''\<rparr>]
   \<and> avalues (RunWhenReady 5 [0, 1, 2, 0] ''cb''
      \<lparr>avalues = [\<lparr>state_of = Unresolved, waiters = []\<rparr>, \<lparr>state_of = Error, waiters = []\<rparr>,
                  \<lparr>state_of = Unresolved, waiters = [OtherWaiter 1]\<rparr>],
       records = Map.empty, next_record = 0, invocations = [], failure = None\<rparr>)
     = [\<lparr>state_of = Unresolved, waiters = [DecrementAndTest 0, DecrementAndTest 0]\<rparr>,
        \<lparr>state_of = Error, waiters = []\<rparr>,
        \<lparr>state_of = Unresolved, waiters = [DecrementAndTest 0, OtherWaiter 1]\<rparr>]"
proof -
  let ?h = "\<lparr>avalues = [\<lparr>state_of = Unresolved, waiters = []\<rparr>, \<lparr>state_of = Error, waiters = []\<rparr>,
                  \<lparr>state_of = Unresolved, waiters = [OtherWaiter 1]\<rparr>],
       records = Map.empty, next_record = 0, invocations = [], failure = None\<rparr> :: string heap"
  have 1: "failure ?h = None" by simp
  have 2: "\<forall>v\<in>set [0, 1, 2, 0]. v < length (avalues ?h)" by simp
  have 3: "[0, 2, 0] = filter (\<lambda>v. \<not> IsAvailable ?h v) [0, 1, 2, 0]"
    by (simp add: IsAvailable_def)
  have 4: "(0 :: nat) = next_record ?h" by simp
  note t = RunWhenReady_dispatch [OF 1 2 3 refl 4, of 5 "''cb''"]
  have r: "records (RunWhenReady 5 [0, 1, 2, 0] ''cb'' ?h) = [0 \<mapsto> \<lparr>counter = 3, callee = ''cb''\<rparr>]"
    using t [THEN conjunct2, THEN conjunct2, THEN conjunct1] by simp
  have a: "avalues (RunWhenReady 5 [0, 1, 2, 0] ''cb'' ?h)
     = [\<lparr>state_of = Unresolved, waiters = [DecrementAndTest 0, DecrementAndTest 0]\<rparr>,
        \<lparr>state_of = Error, waiters = []\<rparr>,
        \<lparr>state_of = Unresolved, waiters = [DecrementAndTest 0, OtherWaiter 1]\<rparr>]"
    by (simp add: RunWhenReady_def AndThen_def IsAvailable_def Let_def)
  show ?thesis
    by (intro conjI) (rule r a)+
qed

text \<open>
  C3.  \<open>RunWhenReady\<close> is a join barrier, whatever the order and the threads in which
  the inputs are resolved, also while \<open>RunWhenReady\<close> itself is running, and whether
  they resolve to a value or to an error (\<open>IsAvailable\<close> holds for both).  Under every
  schedule: nothing fails; the callee is called at most once, and no other callee
  is; when it has been called, every input is available; when the activation has
  returned, the flushes are done and every input is available, it has been called
  exactly once; a state that is not quiescent can move, and a state in which
  nothing can move (every value is resolved then) has called the callee exactly
  once.  A resolved value keeps its state.

  It terminates: a schedule has at most \<open>3 * length vals + 3\<close> steps plus 2 for each
  unresolved value and 1 for each waiter on one; the activation itself takes at
  most \<open>3 * length vals + 3\<close> steps of these, can always take its next step until it
  has returned, and, run without interruption, returns after the steps of the two
  loops with the result of the function \<open>RunWhenReady\<close>.  Every reachable state can
  be run on to a state in which nothing can move, where every input is available
  and the callee has been called exactly once.
\<close>

theorem RunWhenReady_join:
  assumes rng: "\<forall>v\<in>set vals. v < length vs" and len: "length vals < 2 ^ 64"
    and wf: "\<forall>a\<in>set vs. (state_of a \<noteq> Unresolved \<longrightarrow> waiters a = [])
               \<and> (\<forall>w\<in>set (waiters a). is_other w)"
    and run: "rwr_run as (start t vals c vs) = Some s"
  shows "failure s = None
       \<and> length (invocations s) \<le> 1
       \<and> (\<forall>e\<in>set (invocations s). snd e = c)
       \<and> (invocations s \<noteq> [] \<longrightarrow> (\<forall>v\<in>set vals. IsAvailable s v))
       \<and> (quiescent s \<and> (\<forall>v\<in>set vals. IsAvailable s v) \<longrightarrow> length (invocations s) = 1)
       \<and> (\<not> quiescent s \<longrightarrow> (\<exists>a s'. rwr_step a s = Some s'))
       \<and> ((\<forall>a. rwr_step a s = None) \<longrightarrow> length (invocations s) = 1)
       \<and> (\<forall>v<length vs. state_of (vs ! v) \<noteq> Unresolved \<longrightarrow>
             state_of (avalues s ! v) = state_of (vs ! v))
       \<and> length as + rwr_steps s \<le> 3 * length vals + 3 + sum_list (map value_weight vs)
       \<and> length (filter (\<lambda>a. a = CallStep) as) + call_weight (call s) \<le> 3 * length vals + 3
       \<and> (call s \<noteq> Returned \<longrightarrow> (\<exists>s'. rwr_step CallStep s = Some s'))
       \<and> (\<exists>bs s'. rwr_run bs s = Some s' \<and> (\<forall>a. rwr_step a s' = None)
              \<and> (\<forall>v\<in>set vals. IsAvailable s' v) \<and> length (invocations s') = 1)
       \<and> rwr_run
            (replicate
               (length vals + 1
                + (if 2 \<le> length (filter (\<lambda>v. \<not> IsAvailable (start t vals c vs) v) vals)
                   then length (filter (\<lambda>v. \<not> IsAvailable (start t vals c vs) v) vals) else 0))
               CallStep)
            (start t vals c vs)
           = Some ((RunWhenReady t vals c (start t vals c vs))\<lparr>call := Returned\<rparr>)"
proof -
  let ?s0 = "start t vals c vs"
  have inv0: "rwr_inv vals c 0 ?s0"
    using rng len wf by (rule rwr_inv_start)
  from rwr_inv_run [OF run inv0] have inv: "rwr_inv vals c 0 s" .
  note f = invoked_facts [OF inv]
  have 6: "\<not> quiescent s \<longrightarrow> (\<exists>a s'. rwr_step a s = Some s')"
    using rwr_progress [OF f(1)] by blast
  have 7: "(\<forall>a. rwr_step a s = None) \<longrightarrow> length (invocations s) = 1"
    using nothing_enabled [OF inv] f(5) by blast
  have 8: "\<forall>v<length vs. state_of (vs ! v) \<noteq> Unresolved \<longrightarrow>
             state_of (avalues s ! v) = state_of (vs ! v)"
    using stable_run [OF run] by (simp add: start_def)
  have 9: "length as + rwr_steps s \<le> 3 * length vals + 3 + sum_list (map value_weight vs)"
    using rwr_run_bound [OF run f(1)] by (simp only: rwr_steps_start)
  have cw: "call_weight (call ?s0) = 3 * length vals + 3" by (simp add: start_def)
  have 10: "length (filter (\<lambda>a. a = CallStep) as) + call_weight (call s) \<le> 3 * length vals + 3"
    using call_steps_bound [OF run f(1)] by (simp only: cw)
  have 11: "call s \<noteq> Returned \<longrightarrow> (\<exists>s'. rwr_step CallStep s = Some s')"
    using call_step_enabled [OF f(1)] by simp
  from rwr_completion [OF inv] obtain bs s' where
    b: "rwr_run bs s = Some s'" and n: "\<forall>a. rwr_step a s' = None" by blast
  from b inv have inv': "rwr_inv vals c 0 s'" by (rule rwr_inv_run)
  from nothing_enabled [OF inv' n]
  have q: "quiescent s' \<and> (\<forall>v\<in>set vals. IsAvailable s' v)" .
  with invoked_facts(5) [OF inv'] have "length (invocations s') = 1" by blast
  with b n q have 12: "\<exists>bs s'. rwr_run bs s = Some s' \<and> (\<forall>a. rwr_step a s' = None)
              \<and> (\<forall>v\<in>set vals. IsAvailable s' v) \<and> length (invocations s') = 1"
    by blast
  have r0: "\<forall>v\<in>set vals. v < length (avalues ?s0)" using rng by (simp add: start_def)
  have f0: "failure ?s0 = None" by (simp add: start_def)
  have c0: "call ?s0 = Scanning t vals [] c" by (simp add: start_def)
  note 13 = RunWhenReady_uninterrupted [OF r0 f0 c0 refl]
  show ?thesis
    by (intro conjI) (rule f 6 7 8 9 10 11 12 13)+
qed

theorem RunWhenReady_join_witness:
  "rwr_run [CallStep, CallStep, CallStep, Resolve 1 2 Concrete, CallStep, CallStep, CallStep,
            CallStep, FlushStep 0, Resolve 2 0 Error, FlushStep 0, FlushStep 0,
            Resolve 3 1 Concrete, FlushStep 0, FlushStep 0]
     (start 0 [0, 1, 2] ''cb''
        [\<lparr>state_of = Unresolved, waiters = []\<rparr>, \<lparr>state_of = Unresolved, waiters = []\<rparr>,
         \<lparr>state_of = Unresolved, waiters = []\<rparr>])
   = Some \<lparr>avalues = [\<lparr>state_of = Error, waiters = []\<rparr>, \<lparr>state_of = Concrete, waiters = []\<rparr>,
                      \<lparr>state_of = Concrete, waiters = []\<rparr>],
           records = Map.empty, next_record = 1, invocations = [(3, ''cb'')], failure = None,
           call = Returned, flushes = []\<rparr>
   \<and> length [(3 :: nat, ''cb'')] \<le> 1
   \<and> (15 :: nat) \<le> 18"
proof -
  let ?vs = "[\<lparr>state_of = Unresolved, waiters = []\<rparr>, \<lparr>state_of = Unresolved, waiters = []\<rparr>,
         \<lparr>state_of = Unresolved, waiters = []\<rparr>] :: string AsyncValue list"
  let ?s = "\<lparr>avalues = [\<lparr>state_of = Error, waiters = []\<rparr>, \<lparr>state_of = Concrete, waiters = []\<rparr>,
                      \<lparr>state_of = Concrete, waiters = []\<rparr>],
           records = Map.empty, next_record = 1, invocations = [(3, ''cb'')], failure = None,
           call = Returned, flushes = []\<rparr> :: string machine"
  let ?as = "[CallStep, CallStep, CallStep, Resolve 1 2 Concrete, CallStep, CallStep, CallStep,
            CallStep, FlushStep 0, Resolve 2 0 Error, FlushStep 0, FlushStep 0,
            Resolve 3 1 Concrete, FlushStep 0, FlushStep 0]"
  have 1: "\<forall>v\<in>set [0, 1, 2]. v < length ?vs" by simp
  have 2: "length [0 :: nat, 1, 2] < 2 ^ 64" by simp
  have 3: "\<forall>a\<in>set ?vs. (state_of a \<noteq> Unresolved \<longrightarrow> waiters a = [])
               \<and> (\<forall>w\<in>set (waiters a). is_other w)"
    by simp
  have 4: "rwr_run ?as (start 0 [0, 1, 2] ''cb'' ?vs) = Some ?s"
    by (simp add: start_def call_step_def flush_step_def SetState_def AndThen_def run_waiter_def
        IsAvailable_def remove_nth_def Let_def)
  note t = RunWhenReady_join [OF 1 2 3 4]
  have 5: "length [(3 :: nat, ''cb'')] \<le> 1"
    using t [THEN conjunct2, THEN conjunct1] by simp
  have "length ?as + rwr_steps ?s
          \<le> 3 * length [0 :: nat, 1, 2] + 3 + sum_list (map value_weight ?vs)"
    by (rule t [THEN conjunct2, THEN conjunct2, THEN conjunct2, THEN conjunct2, THEN conjunct2,
          THEN conjunct2, THEN conjunct2, THEN conjunct2, THEN conjunct1])
  then have 6: "(15 :: nat) \<le> 18"
    by (simp add: rwr_steps_def value_weight_def)
  show ?thesis
    by (intro conjI) (rule 4 5 6)+
qed

section \<open>The other operations: the claims\<close>

text \<open>
  C5.  \<open>CancelExecution\<close> and \<open>Restart\<close>, called in any number on any threads and
  interleaved in any way.  Nothing is used after it was freed; the live error values
  are exactly the one in the slot and those that a call still holds, so that a value
  that lost the compare-exchange is freed by its call and the value that \<open>Restart\<close>
  took out is freed by \<open>Restart\<close>.  The first writer wins: the slot is occupied
  exactly if one compare-exchange succeeded since the last exchange, and never more
  than one did.  Every compare-exchange was called with \<open>nullptr\<close> expected, release
  on success and relaxed on failure; every exchange stored \<open>nullptr\<close> with acq_rel.
  A further \<open>CancelExecution\<close> installs its value if the slot is empty and otherwise
  keeps the value that is there and frees its own; \<open>Restart\<close> empties the slot and
  frees the value that was there; after \<open>Restart\<close>, \<open>CancelExecution\<close> installs a new
  value.  The two functions are what the interleaved steps do when nothing comes in
  between.
\<close>

theorem CancelExecution_first_writer_wins:
  assumes "cancel_run as new_cancel_machine = Some s"
  shows "fault s = None
    \<and> distinct (owned s)
    \<and> dom (error_values s) = set (owned s)
    \<and> installs_since_restart (atomic_ops s) = (if cancel_value s = None then 0 else 1)
    \<and> (\<forall>op \<in> set (atomic_ops s). as_in_source op)
    \<and> (\<forall>msg.
          cancel_value (CancelExecution msg s)
            = (case cancel_value s of None \<Rightarrow> Some (next_error_value s) | Some v \<Rightarrow> Some v)
          \<and> error_values (CancelExecution msg s)
            = (case cancel_value s of
                 None \<Rightarrow> (error_values s)(next_error_value s \<mapsto> \<lparr>message = msg, refcount = 1\<rparr>)
               | Some v \<Rightarrow> error_values s)
          \<and> atomic_ops (CancelExecution msg s)
            = atomic_ops s @ [CompareExchangeStrong None (Some (next_error_value s))
                                memory_order_release memory_order_relaxed (cancel_value s = None)]
          \<and> fault (CancelExecution msg s) = None)
    \<and> cancel_value (Restart s) = None
    \<and> error_values (Restart s)
         = (case cancel_value s of None \<Rightarrow> error_values s
            | Some v \<Rightarrow> (error_values s)(v := None))
    \<and> atomic_ops (Restart s)
         = atomic_ops s @ [Exchange None memory_order_acq_rel (cancel_value s)]
    \<and> fault (Restart s) = None
    \<and> (\<forall>msg.
          cancel_value (CancelExecution msg (Restart s)) = Some (next_error_value s)
          \<and> error_values (CancelExecution msg (Restart s)) (next_error_value s)
              = Some \<lparr>message = msg, refcount = 1\<rparr>
          \<and> fault (CancelExecution msg (Restart s)) = None)
    \<and> (\<forall>msg.
          cancel_run (CallCancelExecution msg #
                      (if cancel_value s = None then [Resume (length (activities s))]
                       else [Resume (length (activities s)), Resume (length (activities s))])) s
            = Some (CancelExecution msg s))
    \<and> cancel_run (CallRestart #
                   (if cancel_value s = None then [] else [Resume (length (activities s))])) s
         = Some (Restart s)"
proof -
  from assms new_cancel_machine_inv have inv: "cancel_inv s" by (rule cancel_inv_run)
  from Restart_run inv have inv': "cancel_inv (Restart s)" by (rule cancel_inv_run)
  note c = CancelExecution_fields [OF inv]
  note r = Restart_fields [OF inv]
  note c' = CancelExecution_fields [OF inv']
  from inv have 1: "fault s = None" and 2: "distinct (owned s)"
    and 4: "installs_since_restart (atomic_ops s) = (if cancel_value s = None then 0 else 1)"
    and 5: "\<forall>op \<in> set (atomic_ops s). as_in_source op"
    by (simp_all add: cancel_inv_def)
  from inv have "\<forall>a. (a \<in> set (owned s)) = (error_values s a \<noteq> None)"
    by (simp add: cancel_inv_def)
  then have 3: "dom (error_values s) = set (owned s)" by (auto simp add: dom_def)
  have 6: "\<forall>msg.
          cancel_value (CancelExecution msg s)
            = (case cancel_value s of None \<Rightarrow> Some (next_error_value s) | Some v \<Rightarrow> Some v)
          \<and> error_values (CancelExecution msg s)
            = (case cancel_value s of
                 None \<Rightarrow> (error_values s)(next_error_value s \<mapsto> \<lparr>message = msg, refcount = 1\<rparr>)
               | Some v \<Rightarrow> error_values s)
          \<and> atomic_ops (CancelExecution msg s)
            = atomic_ops s @ [CompareExchangeStrong None (Some (next_error_value s))
                                memory_order_release memory_order_relaxed (cancel_value s = None)]
          \<and> fault (CancelExecution msg s) = None"
    by (intro allI conjI) (rule c)+
  have 7: "\<forall>msg.
          cancel_value (CancelExecution msg (Restart s)) = Some (next_error_value s)
          \<and> error_values (CancelExecution msg (Restart s)) (next_error_value s)
              = Some \<lparr>message = msg, refcount = 1\<rparr>
          \<and> fault (CancelExecution msg (Restart s)) = None"
    by (simp add: c' r)
  have 8: "\<forall>msg.
          cancel_run (CallCancelExecution msg #
                      (if cancel_value s = None then [Resume (length (activities s))]
                       else [Resume (length (activities s)), Resume (length (activities s))])) s
            = Some (CancelExecution msg s)"
    by (intro allI) (rule CancelExecution_run)
  show ?thesis
    by (intro conjI) (rule 1 2 3 4 5 6 r(1) r(2) r(3) r(4) 7 8 Restart_run)+
qed

theorem CancelExecution_first_writer_wins_witness:
  "cancel_run [CallCancelExecution ''a'', CallCancelExecution ''b'', Resume 1, Resume 0, Resume 0]
       new_cancel_machine
     = Some \<lparr>cancel_value = Some 1,
             error_values = [1 \<mapsto> \<lparr>message = ''b'', refcount = 1\<rparr>],
             next_error_value = 2,
             atomic_ops =
               [CompareExchangeStrong None (Some 1) memory_order_release memory_order_relaxed True,
                CompareExchangeStrong None (Some 0) memory_order_release memory_order_relaxed False],
             fault = None, activities = []\<rparr>
   \<and> cancel_value (CancelExecution ''c''
        \<lparr>cancel_value = Some 1,
         error_values = [1 \<mapsto> \<lparr>message = ''b'', refcount = 1\<rparr>],
         next_error_value = 2,
         atomic_ops =
           [CompareExchangeStrong None (Some 1) memory_order_release memory_order_relaxed True,
            CompareExchangeStrong None (Some 0) memory_order_release memory_order_relaxed False],
         fault = None, activities = []\<rparr>) = Some 1
   \<and> cancel_value (CancelExecution ''c'' (Restart
        \<lparr>cancel_value = Some 1,
         error_values = [1 \<mapsto> \<lparr>message = ''b'', refcount = 1\<rparr>],
         next_error_value = 2,
         atomic_ops =
           [CompareExchangeStrong None (Some 1) memory_order_release memory_order_relaxed True,
            CompareExchangeStrong None (Some 0) memory_order_release memory_order_relaxed False],
         fault = None, activities = []\<rparr>)) = Some 2"
proof -
  let ?s = "\<lparr>cancel_value = Some 1,
         error_values = [1 \<mapsto> \<lparr>message = ''b'', refcount = 1\<rparr>],
         next_error_value = 2,
         atomic_ops =
           [CompareExchangeStrong None (Some 1) memory_order_release memory_order_relaxed True,
            CompareExchangeStrong None (Some 0) memory_order_release memory_order_relaxed False],
         fault = None, activities = []\<rparr>"
  have e: "[0 :: nat \<mapsto> \<lparr>message = ''a'', refcount = 1\<rparr>, 1 \<mapsto> \<lparr>message = ''b'', refcount = 1\<rparr>]
             (0 := None) = [1 \<mapsto> \<lparr>message = ''b'', refcount = 1\<rparr>]"
    by (rule ext) simp
  have r: "cancel_run
       [CallCancelExecution ''a'', CallCancelExecution ''b'', Resume 1, Resume 0, Resume 0]
       new_cancel_machine = Some ?s"
    by (simp add: new_cancel_machine_def cancel_step_def MakeErrorAsyncValueRef_def
        compare_exchange_strong_def DropRef_def remove_nth_def e)
  note t = CancelExecution_first_writer_wins [OF r]
  from t have "\<forall>msg.
          cancel_value (CancelExecution msg ?s)
            = (case cancel_value ?s of None \<Rightarrow> Some (next_error_value ?s) | Some v \<Rightarrow> Some v)
          \<and> error_values (CancelExecution msg ?s)
            = (case cancel_value ?s of
                 None \<Rightarrow> (error_values ?s)(next_error_value ?s \<mapsto> \<lparr>message = msg, refcount = 1\<rparr>)
               | Some v \<Rightarrow> error_values ?s)
          \<and> atomic_ops (CancelExecution msg ?s)
            = atomic_ops ?s @ [CompareExchangeStrong None (Some (next_error_value ?s))
                                memory_order_release memory_order_relaxed (cancel_value ?s = None)]
          \<and> fault (CancelExecution msg ?s) = None"
    by (rule conjunct2 [THEN conjunct2, THEN conjunct2, THEN conjunct2, THEN conjunct2,
          THEN conjunct1])
  then have "cancel_value (CancelExecution ''c'' ?s)
            = (case cancel_value ?s of None \<Rightarrow> Some (next_error_value ?s) | Some v \<Rightarrow> Some v)"
    by (elim allE [where x = "''c''"] conjE)
  then have a: "cancel_value (CancelExecution ''c'' ?s) = Some 1" by simp
  from t have "\<forall>msg.
          cancel_value (CancelExecution msg (Restart ?s)) = Some (next_error_value ?s)
          \<and> error_values (CancelExecution msg (Restart ?s)) (next_error_value ?s)
              = Some \<lparr>message = msg, refcount = 1\<rparr>
          \<and> fault (CancelExecution msg (Restart ?s)) = None"
    by (rule conjunct2 [THEN conjunct2, THEN conjunct2, THEN conjunct2, THEN conjunct2,
          THEN conjunct2, THEN conjunct2, THEN conjunct2, THEN conjunct2, THEN conjunct2,
          THEN conjunct1])
  then have "cancel_value (CancelExecution ''c'' (Restart ?s)) = Some (next_error_value ?s)"
    by (elim allE [where x = "''c''"] conjE)
  then have b: "cancel_value (CancelExecution ''c'' (Restart ?s)) = Some 2" by simp
  show ?thesis
    by (intro conjI) (rule r a b)+
qed



text \<open>
  C7, as stated, fails: when the queue rejects the task, \<open>EnqueueBlockingWork\<close>
  returns \<open>false\<close>, and the closure is not returned to the caller: it is destroyed
  when the call returns.  Here a queue of capacity 1 that holds the task 1 rejects
  the task 2.
\<close>

theorem EnqueueBlockingWork_rejected_counterexample:
  "accepted (EnqueueBlockingWork (AddBlockingTask_bounded 1) (2 :: nat) [1]) = False
   \<and> returned_to_caller (EnqueueBlockingWork (AddBlockingTask_bounded 1) (2 :: nat) [1]) \<noteq> Some 2
   \<and> destroyed (EnqueueBlockingWork (AddBlockingTask_bounded 1) (2 :: nat) [1]) = [2]
   \<and> work_queue (EnqueueBlockingWork (AddBlockingTask_bounded 1) (2 :: nat) [1]) = [1]"
  by (simp add: EnqueueBlockingWork_def AddBlockingTask_bounded_def)

text \<open>
  C7, amended.  \<open>EnqueueBlockingWork\<close> returns \<open>true\<close> exactly if \<open>AddBlockingTask\<close>
  took the task (it returned no task); the queue is left as \<open>AddBlockingTask\<close> left
  it.  Nothing is returned to the caller besides the \<open>bool\<close>; the closure of a
  rejected task is destroyed when the call returns, without having been run by the
  call.  With a bounded queue, the task is accepted exactly if the queue is not full.
\<close>

theorem EnqueueBlockingWork_bool:
  "accepted (EnqueueBlockingWork add work wq) = (fst (add work True wq) = None)
   \<and> work_queue (EnqueueBlockingWork add work wq) = snd (add work True wq)
   \<and> returned_to_caller (EnqueueBlockingWork add work wq) = None
   \<and> destroyed (EnqueueBlockingWork add work wq)
       = (if accepted (EnqueueBlockingWork add work wq) then [] else [the (fst (add work True wq))])
   \<and> accepted (EnqueueBlockingWork (AddBlockingTask_bounded capacity) work q)
       = (length q < capacity)
   \<and> destroyed (EnqueueBlockingWork (AddBlockingTask_bounded capacity) work q)
       = (if length q < capacity then [] else [work])"
proof -
  have 1: "accepted (EnqueueBlockingWork add work wq) = (fst (add work True wq) = None)
   \<and> work_queue (EnqueueBlockingWork add work wq) = snd (add work True wq)
   \<and> returned_to_caller (EnqueueBlockingWork add work wq) = None
   \<and> destroyed (EnqueueBlockingWork add work wq)
       = (if accepted (EnqueueBlockingWork add work wq) then [] else [the (fst (add work True wq))])"
    by (cases "add work True wq") (auto simp: EnqueueBlockingWork_def)
  have 2: "accepted (EnqueueBlockingWork (AddBlockingTask_bounded capacity) work q)
       = (length q < capacity)
   \<and> destroyed (EnqueueBlockingWork (AddBlockingTask_bounded capacity) work q)
       = (if length q < capacity then [] else [work])"
    by (simp add: EnqueueBlockingWork_def AddBlockingTask_bounded_def)
  from 1 2 show ?thesis by (simp only: simp_thms)
qed

text \<open>
  C8.  After any sequence of constructions and destructions that did not abort, the
  indices handed out are the values \<open>0, 1, 2, \<dots>\<close> of the counter in this order, all
  different, whatever was destroyed in between, and they are fewer than
  \<open>kDummyIndex\<close> or as many.  The next construction gets the next index and stores
  the context at it in the table if fewer than \<open>kDummyIndex\<close> contexts were
  constructed, and fails the assertion otherwise.  A destruction sets the slot of
  its index to \<open>nullptr\<close>.
\<close>

theorem instance_index_never_reused:
  assumes "run_lifecycle kDummyIndex ops ([], initial_globals kDummyIndex) = Inr (idxs, g)"
  shows "idxs = map of_nat [0..<length idxs]
       \<and> distinct idxs
       \<and> next_host_context_index g = of_nat (length idxs)
       \<and> length idxs \<le> nat (sint kDummyIndex)
       \<and> (\<forall>this. HostContext_construct kDummyIndex this g =
             (if length idxs < nat (sint kDummyIndex)
              then Inr (of_nat (length idxs),
                        g\<lparr>next_host_context_index := of_nat (Suc (length idxs)),
                          all_host_contexts := (all_host_contexts g)[length idxs := Some this]\<rparr>)
              else Inl AssertionFailed))
       \<and> (\<forall>i<nat (sint kDummyIndex).
             HostContext_destroy (of_nat i) g
               = Inr (g\<lparr>all_host_contexts := (all_host_contexts g)[i := None]\<rparr>))"
proof -
  from run_lifecycle_inv [OF assms initial_globals_inv]
  have inv: "globals_inv kDummyIndex idxs g" .
  then have 1: "idxs = map of_nat [0..<length idxs]"
    and 3: "next_host_context_index g = of_nat (length idxs)"
    and 4: "length idxs \<le> nat (sint kDummyIndex)"
    by (auto simp: globals_inv_def)
  have "length idxs < 2 ^ 31" using 4 capacity_small [of kDummyIndex] by simp
  then have "distinct (map (of_nat :: nat \<Rightarrow> cint) [0..<length idxs])"
    by (rule distinct_indices)
  then have 2: "distinct idxs" by (subst 1)
  have 5: "\<forall>this. HostContext_construct kDummyIndex this g =
             (if length idxs < nat (sint kDummyIndex)
              then Inr (of_nat (length idxs),
                        g\<lparr>next_host_context_index := of_nat (Suc (length idxs)),
                          all_host_contexts := (all_host_contexts g)[length idxs := Some this]\<rparr>)
              else Inl AssertionFailed)"
    using construct_inv [OF inv] by blast
  have 6: "\<forall>i<nat (sint kDummyIndex).
             HostContext_destroy (of_nat i) g
               = Inr (g\<lparr>all_host_contexts := (all_host_contexts g)[i := None]\<rparr>)"
    using destroy_inv [OF inv] by blast
  show ?thesis
    by (intro conjI) (rule 1 2 3 4 5 6)+
qed

theorem instance_index_never_reused_witness:
  "run_lifecycle 2 [Construct ''a'', Construct ''b'', Destroy 0] ([], initial_globals 2)
     = Inr ([0, 1], \<lparr>next_host_context_index = 2, all_host_contexts = [None, Some ''b'']\<rparr>)
   \<and> distinct [0, 1 :: cint]
   \<and> HostContext_construct 2 ''c''
        \<lparr>next_host_context_index = 2, all_host_contexts = [None, Some ''b'']\<rparr>
       = Inl AssertionFailed"
proof -
  let ?g = "\<lparr>next_host_context_index = 2 :: cint, all_host_contexts = [None, Some ''b'']\<rparr>"
  have r: "run_lifecycle 2 [Construct ''a'', Construct ''b'', Destroy 0] ([], initial_globals 2)
     = Inr ([0, 1], ?g)"
    by (simp add: initial_globals_def HostContext_construct_def HostContext_destroy_def
        word_sless_alt Let_def numeral_2_eq_2)
  note t = instance_index_never_reused [OF r]
  have d: "distinct [0, 1 :: cint]"
    by (rule t [THEN conjunct2, THEN conjunct1])
  note t [THEN conjunct2, THEN conjunct2, THEN conjunct2, THEN conjunct2, THEN conjunct1,
      THEN spec, of "''c''"]
  then have c: "HostContext_construct 2 ''c'' ?g = Inl AssertionFailed"
    by simp
  show ?thesis
    by (intro conjI) (rule r d c)+
qed

end
